theory Spec2Isabelle
  imports Main "HOL-Library.Word" "HOL-Library.Sublist"
begin

section \<open>The SLP bridge thread of tools/e133/SlpThread.cpp\<close>

text \<open>
  The worker thread of \<^verbatim>\<open>SlpThread\<close> is single threaded, so its member functions are
  modelled as functions from the object's state to the new state. Everything that is
  not code of \<^verbatim>\<open>SlpThread.cpp\<close> enters a function as an argument: what the SLP
  library answers (\<^verbatim>\<open>SLPFindSrvs\<close>, \<^verbatim>\<open>SLPReg\<close>, \<^verbatim>\<open>SLPDereg\<close>,
  \<^verbatim>\<open>SLPGetRefreshInterval\<close>, \<^verbatim>\<open>SLPOpen\<close>), whether a socket could be opened, and the
  constant \<^verbatim>\<open>SLPD_AGING_TIME_S\<close>, which is declared in \<^verbatim>\<open>SlpThread.h\<close>.
\<close>

subsection \<open>Machine types and SLP error codes\<close>

type_synonym ushort = "16 word"        \<comment> \<open>\<^verbatim>\<open>unsigned short\<close>\<close>
type_synonym unsigned_int = "32 word"  \<comment> \<open>\<^verbatim>\<open>unsigned int\<close>\<close>

type_synonym SLPError = int             \<comment> \<open>the enum of \<^verbatim>\<open>slp.h\<close>, by its integer value\<close>

definition SLP_OK :: SLPError where
  "SLP_OK = 0"

definition SLP_LAST_CALL :: SLPError where
  "SLP_LAST_CALL = 1"

definition SERVICE_NAME :: string where
  "SERVICE_NAME = ''service:e133.esta''"

definition MIN_LIFETIME :: ushort where
  "MIN_LIFETIME = 5"

subsection \<open>Callbacks, timers, sockets\<close>

text \<open>
  A \<^verbatim>\<open>slp_registration_callback*\<close> of the caller is known by its identity only. A
  closure built with \<^verbatim>\<open>NewSingleCallback\<close> is the member function and its bound
  arguments. There is one datatype for each place closures are kept in: the incoming
  queue holds the closures that \<^verbatim>\<open>Discover\<close>, \<^verbatim>\<open>Register\<close> and \<^verbatim>\<open>DeRegister\<close>
  build, the outgoing queue the two completions, the worker's timers the two triggers.
\<close>

type_synonym cb_id = nat

datatype request =
    DiscoveryRequest_cb
  | RegisterRequest_cb cb_id string ushort
  | DeregisterRequest_cb cb_id string

datatype completion =
    DiscoveryActionComplete_cb bool "string list"
  | SimpleActionComplete_cb cb_id bool

datatype timer_callback =
    DiscoveryTriggered_cb
  | RegistrationTriggered_cb string

datatype timeout_id = INVALID_TIMEOUT | Timeout nat

datatype socket_name = IncomingSocket | OutgoingSocket

text \<open>
  Modelled from the spec: \<^verbatim>\<open>ola::network::SelectServer\<close> is not under src/. The
  spec's Event Loop Adapter registers a one-shot timer with a millisecond delay and a
  callback and returns a handle that can be cancelled; cancelling a handle that has fired
  or was cancelled is a no-op; a timer that fires is gone. Handles are never reused.
\<close>

record SelectServer =
  timeouts :: "(nat \<times> int \<times> timer_callback) list"  \<comment> \<open>pending: handle, delay in ms, callback\<close>
  next_timeout :: nat
  sockets :: "socket_name set"

definition SelectServer_new :: SelectServer where
  "SelectServer_new = \<lparr>timeouts = [], next_timeout = 0, sockets = {}\<rparr>"

definition RegisterSingleTimeout ::
    "int \<Rightarrow> timer_callback \<Rightarrow> SelectServer \<Rightarrow> timeout_id \<times> SelectServer" where
  "RegisterSingleTimeout ms cb ss =
     (Timeout (next_timeout ss),
      ss\<lparr>timeouts := timeouts ss @ [(next_timeout ss, ms, cb)],
         next_timeout := Suc (next_timeout ss)\<rparr>)"

definition RemoveTimeout :: "timeout_id \<Rightarrow> SelectServer \<Rightarrow> SelectServer" where
  "RemoveTimeout t ss =
     (case t of
        INVALID_TIMEOUT \<Rightarrow> ss
      | Timeout n \<Rightarrow> ss\<lparr>timeouts := filter (\<lambda>e. fst e \<noteq> n) (timeouts ss)\<rparr>)"

definition AddSocket :: "socket_name \<Rightarrow> SelectServer \<Rightarrow> SelectServer" where
  "AddSocket s ss = ss\<lparr>sockets := insert s (sockets ss)\<rparr>"

text \<open>The timer with handle \<open>n\<close> fires: it leaves the pending timers and its callback is
  handed out to be run.\<close>

definition fire_timeout :: "nat \<Rightarrow> SelectServer \<Rightarrow> timer_callback option \<times> SelectServer" where
  "fire_timeout n ss =
     (case filter (\<lambda>e. fst e = n) (timeouts ss) of
        [] \<Rightarrow> (None, ss)
      | e # _ \<Rightarrow> (Some (snd (snd e)), RemoveTimeout (Timeout n) ss))"

text \<open>
  Modelled from the spec: \<^verbatim>\<open>ola::network::LoopbackSocket\<close> is not under src/. The
  spec's Loopback Wake Channel: a signal writes one byte, a drain discards all pending
  bytes. Whether opening it succeeds is decided outside the program.
\<close>

record LoopbackSocket =
  sock_open :: bool
  sock_pending :: nat

definition LoopbackSocket_new :: LoopbackSocket where
  "LoopbackSocket_new = \<lparr>sock_open = False, sock_pending = 0\<rparr>"

definition socket_Init :: "bool \<Rightarrow> LoopbackSocket \<Rightarrow> bool \<times> LoopbackSocket" where
  "socket_Init opened s = (if opened then (True, s\<lparr>sock_open := True\<rparr>) else (False, s))"

definition socket_Close :: "LoopbackSocket \<Rightarrow> LoopbackSocket" where
  "socket_Close s = s\<lparr>sock_open := False, sock_pending := 0\<rparr>"

definition WakeUpSocket :: "LoopbackSocket \<Rightarrow> LoopbackSocket" where
  "WakeUpSocket s = s\<lparr>sock_pending := Suc (sock_pending s)\<rparr>"

definition EmptySocket :: "LoopbackSocket \<Rightarrow> LoopbackSocket" where
  "EmptySocket s = s\<lparr>sock_pending := 0\<rparr>"

subsection \<open>What the SLP library answers\<close>

text \<open>
  A call of \<^verbatim>\<open>SLPFindSrvs\<close> returns an error code and, before it returns, invokes
  \<^verbatim>\<open>ServiceCallback\<close> some number of times. The cookie it writes to is a local
  variable that \<^verbatim>\<open>DiscoveryRequest\<close> does not initialise: \<open>fr_uninit\<close> is the value
  its \<^verbatim>\<open>error\<close> field happens to hold. \<^verbatim>\<open>SLPReg\<close> and \<^verbatim>\<open>SLPDereg\<close> do the same
  with \<^verbatim>\<open>RegisterCallback\<close> and the local \<^verbatim>\<open>callbackerr\<close>.
\<close>

record find_reply =
  fr_ret :: SLPError
  fr_calls :: "(string \<times> ushort \<times> SLPError) list"  \<comment> \<open>srvurl, lifetime, errcode\<close>
  fr_uninit :: SLPError

record reg_reply =
  rr_ret :: SLPError
  rr_calls :: "SLPError list"
  rr_uninit :: SLPError

record slp_cookie =
  error :: SLPError
  urls :: "(string \<times> ushort) list"

definition RegisterCallback :: "SLPError \<Rightarrow> SLPError \<Rightarrow> SLPError" where
  \<comment> \<open>\<^verbatim>\<open>*error = errcode\<close>: the second argument is the old content of the cookie\<close>
  "RegisterCallback errcode cookie = errcode"

definition ServiceCallback :: "string \<Rightarrow> ushort \<Rightarrow> SLPError \<Rightarrow> slp_cookie \<Rightarrow> slp_cookie" where
  "ServiceCallback srvurl lt errcode cookie =
     (if errcode = SLP_OK then cookie\<lparr>urls := urls cookie @ [(srvurl, lt)], error := SLP_OK\<rparr>
      else if errcode = SLP_LAST_CALL then cookie\<lparr>error := SLP_OK\<rparr>
      else cookie\<lparr>error := errcode\<rparr>)"

text \<open>The cookie after \<^verbatim>\<open>SLPFindSrvs\<close> has returned, and \<^verbatim>\<open>callbackerr\<close> after
  \<^verbatim>\<open>SLPReg\<close> or \<^verbatim>\<open>SLPDereg\<close> has returned.\<close>

definition find_cookie :: "find_reply \<Rightarrow> slp_cookie" where
  "find_cookie r =
     foldl (\<lambda>c (srvurl, lt, errcode). ServiceCallback srvurl lt errcode c)
       \<lparr>error = fr_uninit r, urls = []\<rparr> (fr_calls r)"

definition reg_callbackerr :: "reg_reply \<Rightarrow> SLPError" where
  "reg_callbackerr r = foldl (\<lambda>c errcode. RegisterCallback errcode c) (rr_uninit r) (rr_calls r)"

subsection \<open>The state of a SlpThread\<close>

record url_registration_state =
  lifetime :: ushort
  timeout :: timeout_id

text \<open>Calls on the SLP handle and on the worker's timers, and the erasing of a map
  entry, in program order.\<close>

datatype call =
    SLPFindSrvs_call string
  | SLPGetRefreshInterval_call
  | SLPReg_call string ushort
  | SLPDereg_call string
  | RemoveTimeout_call timeout_id
  | RegisterSingleTimeout_call int timer_callback
  | url_map_erase_call string

text \<open>What the main thread hands to the caller's callbacks.\<close>

datatype delivery =
    DiscoveryResult bool "string list"
  | RegistrationResult cb_id bool

record SlpThread =
  m_ss :: SelectServer
  m_main_ss :: SelectServer
  m_init_ok :: bool
  m_refresh_time :: unsigned_int
  m_slp_handle :: bool                       \<comment> \<open>the handle is open\<close>
  m_discovery_callback :: "cb_id option"     \<comment> \<open>\<open>None\<close> is the NULL pointer\<close>
  m_discovery_timeout :: timeout_id
  m_url_map :: "string \<rightharpoonup> url_registration_state"
  m_incoming_socket :: LoopbackSocket
  m_outgoing_socket :: LoopbackSocket
  m_incoming_queue :: "request list"
  m_outgoing_queue :: "completion list"
  call_log :: "call list"
  delivered :: "delivery list"

definition SlpThread_new :: "SelectServer \<Rightarrow> cb_id option \<Rightarrow> unsigned_int \<Rightarrow> SlpThread" where
  "SlpThread_new ss discovery_callback refresh_time =
     \<lparr>m_ss = SelectServer_new, m_main_ss = ss, m_init_ok = False,
      m_refresh_time = refresh_time, m_slp_handle = False,
      m_discovery_callback = discovery_callback, m_discovery_timeout = INVALID_TIMEOUT,
      m_url_map = Map.empty,
      m_incoming_socket = LoopbackSocket_new, m_outgoing_socket = LoopbackSocket_new,
      m_incoming_queue = [], m_outgoing_queue = [], call_log = [], delivered = []\<rparr>"

definition log_call :: "call \<Rightarrow> SlpThread \<Rightarrow> SlpThread" where
  "log_call c st = st\<lparr>call_log := call_log st @ [c]\<rparr>"

definition ss_RemoveTimeout :: "timeout_id \<Rightarrow> SlpThread \<Rightarrow> SlpThread" where
  \<comment> \<open>\<^verbatim>\<open>m_ss.RemoveTimeout(t)\<close>\<close>
  "ss_RemoveTimeout t st = log_call (RemoveTimeout_call t) (st\<lparr>m_ss := RemoveTimeout t (m_ss st)\<rparr>)"

definition ss_RegisterSingleTimeout ::
    "int \<Rightarrow> timer_callback \<Rightarrow> SlpThread \<Rightarrow> timeout_id \<times> SlpThread" where
  \<comment> \<open>\<^verbatim>\<open>m_ss.RegisterSingleTimeout(ms, cb)\<close>\<close>
  "ss_RegisterSingleTimeout ms cb st =
     (let (t, ss) = RegisterSingleTimeout ms cb (m_ss st)
      in (t, log_call (RegisterSingleTimeout_call ms cb) (st\<lparr>m_ss := ss\<rparr>)))"

subsection \<open>Init\<close>

definition Init :: "bool \<Rightarrow> bool \<Rightarrow> SLPError \<Rightarrow> SlpThread \<Rightarrow> bool \<times> SlpThread" where
  \<comment> \<open>\<open>in_opened\<close>, \<open>out_opened\<close>: whether the two \<^verbatim>\<open>Init()\<close> of the sockets succeed;
      \<open>err\<close>: what \<^verbatim>\<open>SLPOpen\<close> returns\<close>
  "Init in_opened out_opened err st =
     (if m_init_ok st then (True, st)
      else
        let (r1, s1) = socket_Init in_opened (m_incoming_socket st);
            st1 = st\<lparr>m_incoming_socket := s1\<rparr>
        in if \<not> r1 then (False, st1)
           else
             let (r2, s2) = socket_Init out_opened (m_outgoing_socket st1);
                 st2 = st1\<lparr>m_outgoing_socket := s2\<rparr>
             in if \<not> r2 then
                  (False, st2\<lparr>m_incoming_socket := socket_Close (m_incoming_socket st2)\<rparr>)
                else if err \<noteq> SLP_OK then
                  (False, st2\<lparr>m_incoming_socket := socket_Close (m_incoming_socket st2),
                              m_outgoing_socket := socket_Close (m_outgoing_socket st2)\<rparr>)
                else
                  (True, st2\<lparr>m_slp_handle := True,
                             m_ss := AddSocket IncomingSocket (m_ss st2),
                             m_main_ss := AddSocket OutgoingSocket (m_main_ss st2),
                             m_init_ok := True\<rparr>))"

subsection \<open>The two queues\<close>

definition AddToIncomingQueue :: "request \<Rightarrow> SlpThread \<Rightarrow> SlpThread" where
  "AddToIncomingQueue cb st = st\<lparr>m_incoming_queue := m_incoming_queue st @ [cb]\<rparr>"

definition AddToOutgoingQueue :: "completion \<Rightarrow> SlpThread \<Rightarrow> SlpThread" where
  "AddToOutgoingQueue cb st =
     st\<lparr>m_outgoing_queue := m_outgoing_queue st @ [cb],
        m_outgoing_socket := WakeUpSocket (m_outgoing_socket st)\<rparr>"

subsection \<open>The public requests, run on the caller's thread\<close>

definition Discover :: "SlpThread \<Rightarrow> bool \<times> SlpThread" where
  "Discover st =
     (if m_discovery_callback st = None then (False, st)
      else
        let st1 = AddToIncomingQueue DiscoveryRequest_cb st
        in (True, st1\<lparr>m_incoming_socket := WakeUpSocket (m_incoming_socket st1)\<rparr>))"

definition Register :: "nat \<Rightarrow> cb_id \<Rightarrow> string \<Rightarrow> ushort \<Rightarrow> SlpThread \<Rightarrow> SlpThread" where
  \<comment> \<open>the first argument is the constant \<^verbatim>\<open>SLPD_AGING_TIME_S\<close>; the assignment to the
      \<^verbatim>\<open>unsigned short\<close> keeps the low 16 bits\<close>
  "Register SLPD_AGING_TIME_S on_complete url lt st =
     (let lt1 = (if unat lt \<le> SLPD_AGING_TIME_S * 2 then of_nat (2 * SLPD_AGING_TIME_S) else lt);
          st1 = AddToIncomingQueue (RegisterRequest_cb on_complete url lt1) st
      in st1\<lparr>m_incoming_socket := WakeUpSocket (m_incoming_socket st1)\<rparr>)"

definition DeRegister :: "cb_id \<Rightarrow> string \<Rightarrow> SlpThread \<Rightarrow> SlpThread" where
  "DeRegister on_complete url st =
     (let st1 = AddToIncomingQueue (DeregisterRequest_cb on_complete url) st
      in st1\<lparr>m_incoming_socket := WakeUpSocket (m_incoming_socket st1)\<rparr>)"

subsection \<open>The requests, run on the worker thread\<close>

definition DiscoveryRequest :: "find_reply \<Rightarrow> SlpThread \<Rightarrow> SlpThread" where
  \<comment> \<open>\<open>reply\<close>: what \<^verbatim>\<open>SLPFindSrvs\<close> does. The \<^verbatim>\<open>unsigned short\<close>
      \<^verbatim>\<open>next_discovery_duration\<close> starts as the low 16 bits of the \<^verbatim>\<open>unsigned int\<close>
      refresh time; the delay \<^verbatim>\<open>next_discovery_duration * 1000\<close> is computed in \<^verbatim>\<open>int\<close>\<close>
  "DiscoveryRequest reply st =
     (let st1 = (if m_discovery_timeout st \<noteq> INVALID_TIMEOUT
                 then ss_RemoveTimeout (m_discovery_timeout st) st else st);
          st2 = log_call (SLPFindSrvs_call SERVICE_NAME) st1;
          cookie = find_cookie reply;
          err = fr_ret reply;
          ok = True;
          ok = (if err \<noteq> SLP_OK then False else ok);
          ok = (if error cookie \<noteq> SLP_OK then False else ok);
          next_discovery_duration = (ucast (m_refresh_time st2) :: ushort);
          next_discovery_duration =
            (if ok then foldl (\<lambda>d p. min (snd p) d) next_discovery_duration (urls cookie)
             else next_discovery_duration);
          urls1 = map fst (urls cookie);
          (t, st3) = ss_RegisterSingleTimeout (uint next_discovery_duration * 1000)
                       DiscoveryTriggered_cb st2
      in AddToOutgoingQueue (DiscoveryActionComplete_cb ok urls1)
           (st3\<lparr>m_discovery_timeout := t\<rparr>))"

definition PerformRegistration ::
    "nat \<Rightarrow> reg_reply \<Rightarrow> string \<Rightarrow> ushort \<Rightarrow> SlpThread \<Rightarrow> bool \<times> SlpThread" where
  \<comment> \<open>\<open>reply\<close>: what \<^verbatim>\<open>SLPReg\<close> does. The pointer \<^verbatim>\<open>timeout\<close> of the source points
      into the map entry of \<open>url\<close> at both call sites, so the handle is written there.
      \<^verbatim>\<open>lifetime - SLPD_AGING_TIME_S\<close> is stored back to the \<^verbatim>\<open>unsigned short\<close>
      (it wraps), \<^verbatim>\<open>(lifetime - 1) * 1000\<close> is computed in \<^verbatim>\<open>int\<close>\<close>
  "PerformRegistration SLPD_AGING_TIME_S reply url lt st =
     (let st1 = log_call (SLPReg_call (SERVICE_NAME @ ''://'' @ url) lt) st;
          err = rr_ret reply;
          callbackerr = reg_callbackerr reply;
          ok = True;
          ok = (if err \<noteq> SLP_OK then False else ok);
          ok = (if callbackerr \<noteq> SLP_OK then False else ok);
          lt1 = lt - of_nat SLPD_AGING_TIME_S;
          (t, st2) = ss_RegisterSingleTimeout ((uint lt1 - 1) * 1000)
                       (RegistrationTriggered_cb url) st1
      in (ok, st2\<lparr>m_url_map :=
                    (m_url_map st2)(url := map_option (\<lambda>e. e\<lparr>timeout := t\<rparr>) (m_url_map st2 url))\<rparr>))"

definition RegisterRequest ::
    "nat \<Rightarrow> ushort \<Rightarrow> reg_reply \<Rightarrow> cb_id \<Rightarrow> string \<Rightarrow> ushort \<Rightarrow> SlpThread \<Rightarrow> SlpThread" where
  \<comment> \<open>\<open>min_lifetime\<close>: what \<^verbatim>\<open>SLPGetRefreshInterval\<close> returns\<close>
  "RegisterRequest SLPD_AGING_TIME_S min_lifetime reply callback url lt0 st0 =
     (let lt1 = max lt0 MIN_LIFETIME;
          st = log_call SLPGetRefreshInterval_call st0;
          lt = (if min_lifetime \<noteq> 0 \<and> lt1 < min_lifetime then min_lifetime else lt1)
      in case m_url_map st url of
           Some e \<Rightarrow>
             if lifetime e = lt then
               AddToOutgoingQueue (SimpleActionComplete_cb callback True) st
             else
               let st1 = st\<lparr>m_url_map := (m_url_map st)(url \<mapsto> e\<lparr>lifetime := lt\<rparr>)\<rparr>;
                   st2 = (if timeout e \<noteq> INVALID_TIMEOUT
                          then ss_RemoveTimeout (timeout e) st1 else st1);
                   (ok, st3) = PerformRegistration SLPD_AGING_TIME_S reply url lt st2
               in AddToOutgoingQueue (SimpleActionComplete_cb callback ok) st3
         | None \<Rightarrow>
             let st1 = st\<lparr>m_url_map :=
                          (m_url_map st)(url \<mapsto> \<lparr>lifetime = lt, timeout = INVALID_TIMEOUT\<rparr>)\<rparr>;
                 (ok, st3) = PerformRegistration SLPD_AGING_TIME_S reply url lt st1
             in AddToOutgoingQueue (SimpleActionComplete_cb callback ok) st3)"

definition DeregisterRequest :: "reg_reply \<Rightarrow> cb_id \<Rightarrow> string \<Rightarrow> SlpThread \<Rightarrow> SlpThread" where
  \<comment> \<open>\<open>reply\<close>: what \<^verbatim>\<open>SLPDereg\<close> does\<close>
  "DeregisterRequest reply callback url st =
     (let st1 = (case m_url_map st url of
                   None \<Rightarrow> st
                 | Some e \<Rightarrow>
                     let st0 = (if timeout e \<noteq> INVALID_TIMEOUT
                                then ss_RemoveTimeout (timeout e) st else st)
                     in log_call (url_map_erase_call url)
                          (st0\<lparr>m_url_map := (m_url_map st0)(url := None)\<rparr>));
          st2 = log_call (SLPDereg_call (SERVICE_NAME @ ''://'' @ url)) st1;
          err = rr_ret reply;
          callbackerr = reg_callbackerr reply;
          ok = True;
          ok = (if err \<noteq> SLP_OK then False else ok);
          ok = (if callbackerr \<noteq> SLP_OK then False else ok)
      in AddToOutgoingQueue (SimpleActionComplete_cb callback ok) st2)"

subsection \<open>The timer callbacks, run on the worker thread\<close>

definition DiscoveryTriggered :: "find_reply \<Rightarrow> SlpThread \<Rightarrow> SlpThread" where
  "DiscoveryTriggered reply st = DiscoveryRequest reply (st\<lparr>m_discovery_timeout := INVALID_TIMEOUT\<rparr>)"

definition RegistrationTriggered :: "nat \<Rightarrow> reg_reply \<Rightarrow> string \<Rightarrow> SlpThread \<Rightarrow> SlpThread" where
  "RegistrationTriggered SLPD_AGING_TIME_S reply url st =
     (case m_url_map st url of
        None \<Rightarrow> st
      | Some e \<Rightarrow> snd (PerformRegistration SLPD_AGING_TIME_S reply url (lifetime e) st))"

subsection \<open>The completions, run on the main thread\<close>

text \<open>A completion calls through a pointer of the caller. The discovery callback may be
  NULL; calling through it is the failure \<open>None\<close>.\<close>

definition DiscoveryActionComplete :: "bool \<Rightarrow> string list \<Rightarrow> SlpThread \<Rightarrow> SlpThread option" where
  "DiscoveryActionComplete ok us st =
     (case m_discovery_callback st of
        None \<Rightarrow> None
      | Some _ \<Rightarrow> Some (st\<lparr>delivered := delivered st @ [DiscoveryResult ok us]\<rparr>))"

definition SimpleActionComplete :: "cb_id \<Rightarrow> bool \<Rightarrow> SlpThread \<Rightarrow> SlpThread option" where
  "SimpleActionComplete callback ok st =
     Some (st\<lparr>delivered := delivered st @ [RegistrationResult callback ok]\<rparr>)"

subsection \<open>Running a closure\<close>

text \<open>What the SLP library answers while one closure runs.\<close>

record slp_replies =
  find_r :: find_reply
  refresh_r :: ushort
  reg_r :: reg_reply
  dereg_r :: reg_reply

definition Run_request :: "nat \<Rightarrow> slp_replies \<Rightarrow> request \<Rightarrow> SlpThread \<Rightarrow> SlpThread" where
  "Run_request SLPD_AGING_TIME_S r cb st =
     (case cb of
        DiscoveryRequest_cb \<Rightarrow> DiscoveryRequest (find_r r) st
      | RegisterRequest_cb callback url lt \<Rightarrow>
          RegisterRequest SLPD_AGING_TIME_S (refresh_r r) (reg_r r) callback url lt st
      | DeregisterRequest_cb callback url \<Rightarrow> DeregisterRequest (dereg_r r) callback url st)"

definition Run_completion :: "completion \<Rightarrow> SlpThread \<Rightarrow> SlpThread option" where
  "Run_completion cb st =
     (case cb of
        DiscoveryActionComplete_cb ok us \<Rightarrow> DiscoveryActionComplete ok us st
      | SimpleActionComplete_cb callback ok \<Rightarrow> SimpleActionComplete callback ok st)"

definition Run_timer :: "nat \<Rightarrow> slp_replies \<Rightarrow> timer_callback \<Rightarrow> SlpThread \<Rightarrow> SlpThread" where
  "Run_timer SLPD_AGING_TIME_S r cb st =
     (case cb of
        DiscoveryTriggered_cb \<Rightarrow> DiscoveryTriggered (find_r r) st
      | RegistrationTriggered_cb url \<Rightarrow> RegistrationTriggered SLPD_AGING_TIME_S (reg_r r) url st)"

subsection \<open>Draining the queues\<close>

text \<open>
  One pass through the body of the loop of \<^verbatim>\<open>NewRequest\<close> up to the unlock: \<open>None\<close>
  when the queue is found empty (the loop returns), else the closure taken from the
  front, which the loop runs next. The mutex makes this pass and an enqueue atomic.
\<close>

definition NewRequest_pop :: "SlpThread \<Rightarrow> (request \<times> SlpThread) option" where
  "NewRequest_pop st =
     (case m_incoming_queue st of
        [] \<Rightarrow> None
      | cb # q \<Rightarrow> Some (cb, st\<lparr>m_incoming_queue := q\<rparr>))"

definition RequestComplete_pop :: "SlpThread \<Rightarrow> (completion \<times> SlpThread) option" where
  "RequestComplete_pop st =
     (case m_outgoing_queue st of
        [] \<Rightarrow> None
      | cb # q \<Rightarrow> Some (cb, st\<lparr>m_outgoing_queue := q\<rparr>))"

text \<open>Running a request leaves the incoming queue as it is: the loop of
  \<^verbatim>\<open>NewRequest\<close> ends once the queue has been emptied.\<close>

lemma incoming_log_call [simp]: "m_incoming_queue (log_call c st) = m_incoming_queue st"
  by (simp add: log_call_def)

lemma incoming_ss_RegisterSingleTimeout [simp]:
  "m_incoming_queue (snd (ss_RegisterSingleTimeout ms cb st)) = m_incoming_queue st"
  by (simp add: ss_RegisterSingleTimeout_def RegisterSingleTimeout_def)

lemma incoming_ss_RemoveTimeout [simp]:
  "m_incoming_queue (ss_RemoveTimeout t st) = m_incoming_queue st"
  by (simp add: ss_RemoveTimeout_def)

lemma incoming_AddToOutgoingQueue [simp]:
  "m_incoming_queue (AddToOutgoingQueue c st) = m_incoming_queue st"
  by (simp add: AddToOutgoingQueue_def)

lemma incoming_DiscoveryRequest [simp]:
  "m_incoming_queue (DiscoveryRequest reply st) = m_incoming_queue st"
  by (simp add: DiscoveryRequest_def Let_def split_beta)

lemma incoming_PerformRegistration [simp]:
  "m_incoming_queue (snd (PerformRegistration A reply url lt st)) = m_incoming_queue st"
  by (simp add: PerformRegistration_def Let_def split_beta)

lemma incoming_RegisterRequest [simp]:
  "m_incoming_queue (RegisterRequest A m reply cb url lt st) = m_incoming_queue st"
  by (simp add: RegisterRequest_def Let_def split_beta split: option.splits)

lemma incoming_DeregisterRequest [simp]:
  "m_incoming_queue (DeregisterRequest reply cb url st) = m_incoming_queue st"
  by (simp add: DeregisterRequest_def Let_def split: option.splits)

lemma incoming_Run_request [simp]:
  "m_incoming_queue (Run_request A r cb st) = m_incoming_queue st"
  by (simp add: Run_request_def split: request.splits)

text \<open>The loop of \<^verbatim>\<open>NewRequest\<close> while no other thread enqueues; \<open>E k\<close> is what the
  SLP library answers to the \<open>k\<close>-th closure that is run.\<close>

function NewRequest_loop :: "nat \<Rightarrow> (nat \<Rightarrow> slp_replies) \<Rightarrow> nat \<Rightarrow> SlpThread \<Rightarrow> SlpThread" where
  "NewRequest_loop SLPD_AGING_TIME_S E k st =
     (case NewRequest_pop st of
        None \<Rightarrow> st
      | Some (cb, st1) \<Rightarrow>
          NewRequest_loop SLPD_AGING_TIME_S E (Suc k) (Run_request SLPD_AGING_TIME_S (E k) cb st1))"
  by pat_completeness auto
termination
  by (relation "measure (\<lambda>(A, E, k, st). length (m_incoming_queue st))")
     (auto simp: NewRequest_pop_def split: list.splits)

declare NewRequest_loop.simps [simp del]

definition NewRequest :: "nat \<Rightarrow> (nat \<Rightarrow> slp_replies) \<Rightarrow> SlpThread \<Rightarrow> SlpThread" where
  "NewRequest SLPD_AGING_TIME_S E st =
     NewRequest_loop SLPD_AGING_TIME_S E 0
       (st\<lparr>m_incoming_socket := EmptySocket (m_incoming_socket st)\<rparr>)"

function RequestComplete_loop :: "SlpThread \<Rightarrow> SlpThread option" where
  "RequestComplete_loop st =
     (case RequestComplete_pop st of
        None \<Rightarrow> Some st
      | Some (cb, st1) \<Rightarrow>
          (case Run_completion cb st1 of
             None \<Rightarrow> None
           | Some st2 \<Rightarrow> RequestComplete_loop st2))"
  by pat_completeness auto
termination
  by (relation "measure (\<lambda>st. length (m_outgoing_queue st))")
     (auto simp: RequestComplete_pop_def Run_completion_def DiscoveryActionComplete_def
        SimpleActionComplete_def split: list.splits completion.splits option.splits)

declare RequestComplete_loop.simps [simp del]

definition RequestComplete :: "SlpThread \<Rightarrow> SlpThread option" where
  "RequestComplete st =
     RequestComplete_loop (st\<lparr>m_outgoing_socket := EmptySocket (m_outgoing_socket st)\<rparr>)"

subsection \<open>Interleavings on one queue\<close>

text \<open>
  Producers and the draining thread meet at the mutex only, so a run of one queue is a
  sequence of two atomic operations: an enqueue, and one pass of the draining loop
  (which takes the front closure and runs it, or finds the queue empty and returns).
  The second component is the sequence of closures run so far.
\<close>

datatype 'a queue_op = Enqueue 'a | Drain_pass

fun enqueued :: "'a queue_op list \<Rightarrow> 'a list" where
  "enqueued [] = []"
| "enqueued (Enqueue a # ops) = a # enqueued ops"
| "enqueued (Drain_pass # ops) = enqueued ops"

fun incoming_op :: "request queue_op \<Rightarrow> SlpThread \<times> request list \<Rightarrow> SlpThread \<times> request list" where
  "incoming_op (Enqueue cb) (st, executed) = (AddToIncomingQueue cb st, executed)"
| "incoming_op Drain_pass (st, executed) =
     (case NewRequest_pop st of
        None \<Rightarrow> (st, executed)
      | Some (cb, st1) \<Rightarrow> (st1, executed @ [cb]))"

fun outgoing_op ::
    "completion queue_op \<Rightarrow> SlpThread \<times> completion list \<Rightarrow> SlpThread \<times> completion list" where
  "outgoing_op (Enqueue cb) (st, executed) = (AddToOutgoingQueue cb st, executed)"
| "outgoing_op Drain_pass (st, executed) =
     (case RequestComplete_pop st of
        None \<Rightarrow> (st, executed)
      | Some (cb, st1) \<Rightarrow> (st1, executed @ [cb]))"

definition incoming_ops ::
    "request queue_op list \<Rightarrow> SlpThread \<times> request list \<Rightarrow> SlpThread \<times> request list" where
  "incoming_ops ops s = foldl (\<lambda>s op. incoming_op op s) s ops"

definition outgoing_ops ::
    "completion queue_op list \<Rightarrow> SlpThread \<times> completion list \<Rightarrow> SlpThread \<times> completion list" where
  "outgoing_ops ops s = foldl (\<lambda>s op. outgoing_op op s) s ops"

text \<open>The closures of a list run one after the other, each once.\<close>

fun run_requests :: "nat \<Rightarrow> (nat \<Rightarrow> slp_replies) \<Rightarrow> nat \<Rightarrow> request list \<Rightarrow> SlpThread \<Rightarrow> SlpThread" where
  "run_requests SLPD_AGING_TIME_S E k [] st = st"
| "run_requests SLPD_AGING_TIME_S E k (cb # cbs) st =
     run_requests SLPD_AGING_TIME_S E (Suc k) cbs (Run_request SLPD_AGING_TIME_S (E k) cb st)"

text \<open>The completions of a list run one after the other, each once, unless one of them
  calls through the NULL discovery callback; what a completion hands to its callback; and
  the completions that call the discovery callback.\<close>

fun delivery_of :: "completion \<Rightarrow> delivery" where
  "delivery_of (DiscoveryActionComplete_cb ok us) = DiscoveryResult ok us"
| "delivery_of (SimpleActionComplete_cb callback ok) = RegistrationResult callback ok"

fun run_completions :: "completion list \<Rightarrow> SlpThread \<Rightarrow> SlpThread option" where
  "run_completions [] st = Some st"
| "run_completions (cb # cbs) st =
     (case Run_completion cb st of
        None \<Rightarrow> None
      | Some st1 \<Rightarrow> run_completions cbs st1)"

fun calls_discovery_callback :: "completion \<Rightarrow> bool" where
  "calls_discovery_callback (DiscoveryActionComplete_cb ok us) = True"
| "calls_discovery_callback (SimpleActionComplete_cb callback ok) = False"

subsection \<open>The bridge as a transition system\<close>

text \<open>
  What can happen to a SlpThread: the three public requests, one pass of either
  draining loop, and a pending timer of the worker's select server firing.
\<close>

datatype event =
    Call_Discover
  | Call_Register cb_id string ushort
  | Call_DeRegister cb_id string
  | NewRequest_pass slp_replies
  | RequestComplete_pass
  | Timeout_fires nat slp_replies

definition step :: "nat \<Rightarrow> event \<Rightarrow> SlpThread \<Rightarrow> SlpThread option" where
  "step SLPD_AGING_TIME_S ev st =
     (case ev of
        Call_Discover \<Rightarrow> Some (snd (Discover st))
      | Call_Register on_complete url lt \<Rightarrow> Some (Register SLPD_AGING_TIME_S on_complete url lt st)
      | Call_DeRegister on_complete url \<Rightarrow> Some (DeRegister on_complete url st)
      | NewRequest_pass r \<Rightarrow>
          (case NewRequest_pop st of
             None \<Rightarrow> Some st
           | Some (cb, st1) \<Rightarrow> Some (Run_request SLPD_AGING_TIME_S r cb st1))
      | RequestComplete_pass \<Rightarrow>
          (case RequestComplete_pop st of
             None \<Rightarrow> Some st
           | Some (cb, st1) \<Rightarrow> Run_completion cb st1)
      | Timeout_fires n r \<Rightarrow>
          (case fire_timeout n (m_ss st) of
             (None, _) \<Rightarrow> Some st
           | (Some cb, ss) \<Rightarrow> Some (Run_timer SLPD_AGING_TIME_S r cb (st\<lparr>m_ss := ss\<rparr>))))"

fun steps :: "nat \<Rightarrow> event list \<Rightarrow> SlpThread \<Rightarrow> SlpThread option" where
  "steps SLPD_AGING_TIME_S [] st = Some st"
| "steps SLPD_AGING_TIME_S (ev # evs) st =
     (case step SLPD_AGING_TIME_S ev st of
        None \<Rightarrow> None
      | Some st1 \<Rightarrow> steps SLPD_AGING_TIME_S evs st1)"

text \<open>The lease that \<^verbatim>\<open>RegisterRequest\<close> goes on with, after its two clamps.\<close>

definition granted_lifetime :: "ushort \<Rightarrow> ushort \<Rightarrow> ushort" where
  "granted_lifetime min_lifetime lt0 =
     (if min_lifetime \<noteq> 0 \<and> max lt0 MIN_LIFETIME < min_lifetime
      then min_lifetime else max lt0 MIN_LIFETIME)"

text \<open>Names for the values of local variables, used to state what a function does:
  \<^verbatim>\<open>ok\<close> and \<^verbatim>\<open>next_discovery_duration\<close> at the end of \<^verbatim>\<open>DiscoveryRequest\<close>,
  \<^verbatim>\<open>ok\<close> at the end of \<^verbatim>\<open>PerformRegistration\<close> and \<^verbatim>\<open>DeregisterRequest\<close>, the delay
  that \<^verbatim>\<open>PerformRegistration\<close> passes to \<^verbatim>\<open>RegisterSingleTimeout\<close>, and the calls of
  the guarded \<^verbatim>\<open>RemoveTimeout\<close>, what \<^verbatim>\<open>DeregisterRequest\<close> does to an entry it
  finds, and the timer handle in the entry of a url.\<close>

definition discovery_ok :: "find_reply \<Rightarrow> bool" where
  "discovery_ok reply = (fr_ret reply = SLP_OK \<and> error (find_cookie reply) = SLP_OK)"

definition next_discovery_duration :: "unsigned_int \<Rightarrow> find_reply \<Rightarrow> ushort" where
  "next_discovery_duration refresh_time reply =
     (if discovery_ok reply
      then foldl (\<lambda>d p. min (snd p) d) (ucast refresh_time) (urls (find_cookie reply))
      else ucast refresh_time)"

definition registration_ok :: "reg_reply \<Rightarrow> bool" where
  "registration_ok reply = (rr_ret reply = SLP_OK \<and> reg_callbackerr reply = SLP_OK)"

definition renewal_delay :: "nat \<Rightarrow> ushort \<Rightarrow> int" where
  "renewal_delay SLPD_AGING_TIME_S lt = (uint (lt - of_nat SLPD_AGING_TIME_S) - 1) * 1000"

definition cancel_calls :: "timeout_id \<Rightarrow> call list" where
  "cancel_calls t = (if t \<noteq> INVALID_TIMEOUT then [RemoveTimeout_call t] else [])"

definition erase_calls :: "SlpThread \<Rightarrow> string \<Rightarrow> call list" where
  "erase_calls st url =
     (case m_url_map st url of
        None \<Rightarrow> []
      | Some e \<Rightarrow> cancel_calls (timeout e) @ [url_map_erase_call url])"

definition entry_timeout :: "SlpThread \<Rightarrow> string \<Rightarrow> timeout_id" where
  "entry_timeout st url = (case m_url_map st url of None \<Rightarrow> INVALID_TIMEOUT | Some e \<Rightarrow> timeout e)"

text \<open>The test of \<^verbatim>\<open>RegisterRequest\<close> for a registration that is there already: the
  map has an entry for the url, and its lifetime is the one asked for.\<close>

definition already_registered :: "SlpThread \<Rightarrow> string \<Rightarrow> ushort \<Rightarrow> bool" where
  "already_registered st url lt =
     (case m_url_map st url of None \<Rightarrow> False | Some e \<Rightarrow> lifetime e = lt)"

subsection \<open>Invariants\<close>

text \<open>
  Two properties of the states that the transition system reaches. The lifetimes: a
  registration request in the incoming queue carries at least twice the aging time, and
  an entry of the map at least that and at least 5. The timers: the pending timers of
  the worker have distinct handles below the next handle to be given out, and a pending
  timer for the renewal of a url is the one whose handle the entry of the url holds.
\<close>

definition lifetimes_ok :: "nat \<Rightarrow> SlpThread \<Rightarrow> bool" where
  "lifetimes_ok SLPD_AGING_TIME_S st \<longleftrightarrow>
     (\<forall>cb url l. RegisterRequest_cb cb url l \<in> set (m_incoming_queue st) \<longrightarrow>
        2 * SLPD_AGING_TIME_S \<le> unat l) \<and>
     (\<forall>url e. m_url_map st url = Some e \<longrightarrow>
        2 * SLPD_AGING_TIME_S \<le> unat (lifetime e) \<and> 5 \<le> unat (lifetime e))"

definition timers_ok :: "SlpThread \<Rightarrow> bool" where
  "timers_ok st \<longleftrightarrow>
     distinct (map fst (timeouts (m_ss st))) \<and>
     (\<forall>t \<in> set (timeouts (m_ss st)). fst t < next_timeout (m_ss st)) \<and>
     (\<forall>n ms url. (n, ms, RegistrationTriggered_cb url) \<in> set (timeouts (m_ss st)) \<longrightarrow>
        (\<exists>e. m_url_map st url = Some e \<and> timeout e = Timeout n))"

text \<open>The discovery callback: while it is NULL, no discovery is queued, completed or
  scheduled.\<close>

definition discovery_guarded :: "SlpThread \<Rightarrow> bool" where
  "discovery_guarded st \<longleftrightarrow>
     (m_discovery_callback st = None \<longrightarrow>
        DiscoveryRequest_cb \<notin> set (m_incoming_queue st) \<and>
        \<not> list_ex calls_discovery_callback (m_outgoing_queue st) \<and>
        (\<forall>n ms. (n, ms, DiscoveryTriggered_cb) \<notin> set (timeouts (m_ss st))))"

subsection \<open>Concrete inputs\<close>

text \<open>A thread with a discovery callback and a refresh time of 60 seconds, answers of
  the SLP library that report success or failure (\<open>- 19\<close> is
  \<^verbatim>\<open>SLP_NETWORK_TIMED_OUT\<close>), and the thread after a first registration of the url
  \<open>u\<close> for 30 seconds, with an aging time of 15 seconds.\<close>

definition a_thread :: SlpThread where
  "a_thread = SlpThread_new SelectServer_new (Some 0) 60"

definition reg_succeeds :: reg_reply where
  "reg_succeeds = \<lparr>rr_ret = SLP_OK, rr_calls = [SLP_OK], rr_uninit = - 7\<rparr>"

definition reg_fails :: reg_reply where
  "reg_fails = \<lparr>rr_ret = - 19, rr_calls = [], rr_uninit = - 7\<rparr>"

definition find_two_services :: find_reply where
  "find_two_services =
     \<lparr>fr_ret = SLP_OK,
      fr_calls = [(''A'', 10, SLP_OK), (''B'', 30, SLP_OK), ([], 0, SLP_LAST_CALL)],
      fr_uninit = - 7\<rparr>"

definition find_fails :: find_reply where
  "find_fails = \<lparr>fr_ret = - 19, fr_calls = [], fr_uninit = - 7\<rparr>"

definition all_succeed :: slp_replies where
  "all_succeed =
     \<lparr>find_r = find_two_services, refresh_r = 0, reg_r = reg_succeeds, dereg_r = reg_succeeds\<rparr>"

definition registered_thread :: SlpThread where
  "registered_thread = RegisterRequest 15 0 reg_succeeds 1 ''u'' 30 a_thread"



definition renewing_thread :: SlpThread where
  "renewing_thread = registered_thread\<lparr>m_incoming_socket := \<lparr>sock_open = False, sock_pending = 1\<rparr>\<rparr>"

section \<open>Properties\<close>

subsection \<open>What each function does to the state\<close>

lemma RemoveTimeout_next [simp]: "next_timeout (RemoveTimeout t ss) = next_timeout ss"
  by (simp add: RemoveTimeout_def split: timeout_id.splits)

lemma RemoveTimeout_sockets [simp]: "sockets (RemoveTimeout t ss) = sockets ss"
  by (simp add: RemoveTimeout_def split: timeout_id.splits)

lemma RemoveTimeout_INVALID [simp]: "RemoveTimeout INVALID_TIMEOUT ss = ss"
  by (simp add: RemoveTimeout_def)

lemma url_registration_state_overwrite:
  "(e :: url_registration_state)\<lparr>lifetime := l, timeout := t\<rparr> = \<lparr>lifetime = l, timeout = t\<rparr>"
  by (cases e) simp

lemma DiscoveryRequest_eq:
  "DiscoveryRequest reply st =
     st\<lparr>m_ss := snd (RegisterSingleTimeout
                      (uint (next_discovery_duration (m_refresh_time st) reply) * 1000)
                      DiscoveryTriggered_cb (RemoveTimeout (m_discovery_timeout st) (m_ss st))),
        call_log := call_log st @ cancel_calls (m_discovery_timeout st) @
          [SLPFindSrvs_call SERVICE_NAME,
           RegisterSingleTimeout_call
             (uint (next_discovery_duration (m_refresh_time st) reply) * 1000) DiscoveryTriggered_cb],
        m_discovery_timeout := Timeout (next_timeout (m_ss st)),
        m_outgoing_queue := m_outgoing_queue st @
          [DiscoveryActionComplete_cb (discovery_ok reply) (map fst (urls (find_cookie reply)))],
        m_outgoing_socket := WakeUpSocket (m_outgoing_socket st)\<rparr>"
  by (simp add: DiscoveryRequest_def Let_def split_beta log_call_def ss_RemoveTimeout_def
      ss_RegisterSingleTimeout_def RegisterSingleTimeout_def AddToOutgoingQueue_def
      discovery_ok_def next_discovery_duration_def cancel_calls_def)

lemma PerformRegistration_eq:
  "PerformRegistration A reply url lt st =
     (registration_ok reply,
      st\<lparr>m_ss := snd (RegisterSingleTimeout (renewal_delay A lt) (RegistrationTriggered_cb url) (m_ss st)),
         call_log := call_log st @
           [SLPReg_call (SERVICE_NAME @ ''://'' @ url) lt,
            RegisterSingleTimeout_call (renewal_delay A lt) (RegistrationTriggered_cb url)],
         m_url_map := (m_url_map st)
           (url := map_option (\<lambda>e. e\<lparr>timeout := Timeout (next_timeout (m_ss st))\<rparr>) (m_url_map st url))\<rparr>)"
  by (simp add: PerformRegistration_def Let_def split_beta log_call_def
      ss_RegisterSingleTimeout_def RegisterSingleTimeout_def registration_ok_def renewal_delay_def)

lemma RegisterRequest_eq:
  "RegisterRequest A m reply cb url lt0 st =
     (let lt = granted_lifetime m lt0 in
      if already_registered st url lt then
        st\<lparr>call_log := call_log st @ [SLPGetRefreshInterval_call],
           m_outgoing_queue := m_outgoing_queue st @ [SimpleActionComplete_cb cb True],
           m_outgoing_socket := WakeUpSocket (m_outgoing_socket st)\<rparr>
      else
        st\<lparr>m_ss := snd (RegisterSingleTimeout (renewal_delay A lt) (RegistrationTriggered_cb url)
                         (RemoveTimeout (entry_timeout st url) (m_ss st))),
           call_log := call_log st @ [SLPGetRefreshInterval_call] @
             cancel_calls (entry_timeout st url) @
             [SLPReg_call (SERVICE_NAME @ ''://'' @ url) lt,
              RegisterSingleTimeout_call (renewal_delay A lt) (RegistrationTriggered_cb url)],
           m_url_map := (m_url_map st)
             (url \<mapsto> \<lparr>lifetime = lt, timeout = Timeout (next_timeout (m_ss st))\<rparr>),
           m_outgoing_queue := m_outgoing_queue st @
             [SimpleActionComplete_cb cb (registration_ok reply)],
           m_outgoing_socket := WakeUpSocket (m_outgoing_socket st)\<rparr>)"
proof -
  have fold_lt: "(if m \<noteq> 0 \<and> max lt0 MIN_LIFETIME < m then m else max lt0 MIN_LIFETIME) =
      granted_lifetime m lt0"
    by (simp add: granted_lifetime_def)
  show ?thesis
    unfolding RegisterRequest_def Let_def fold_lt
    by (cases "m_url_map st url")
       (simp_all add: PerformRegistration_eq log_call_def ss_RemoveTimeout_def
          AddToOutgoingQueue_def cancel_calls_def RegisterSingleTimeout_def
          url_registration_state_overwrite entry_timeout_def already_registered_def)
qed

lemma DeregisterRequest_eq:
  "DeregisterRequest reply cb url st =
     st\<lparr>m_ss := RemoveTimeout (entry_timeout st url) (m_ss st),
        call_log := call_log st @ erase_calls st url @
          [SLPDereg_call (SERVICE_NAME @ ''://'' @ url)],
        m_url_map := (m_url_map st)(url := None),
        m_outgoing_queue := m_outgoing_queue st @
          [SimpleActionComplete_cb cb (registration_ok reply)],
        m_outgoing_socket := WakeUpSocket (m_outgoing_socket st)\<rparr>"
  by (cases "m_url_map st url")
     (auto simp: DeregisterRequest_def Let_def log_call_def ss_RemoveTimeout_def
      AddToOutgoingQueue_def cancel_calls_def registration_ok_def fun_upd_idem entry_timeout_def
      erase_calls_def)

lemma RegistrationTriggered_eq:
  "RegistrationTriggered A reply url st =
     (case m_url_map st url of
        None \<Rightarrow> st
      | Some e \<Rightarrow>
          st\<lparr>m_ss := snd (RegisterSingleTimeout (renewal_delay A (lifetime e))
                           (RegistrationTriggered_cb url) (m_ss st)),
             call_log := call_log st @
               [SLPReg_call (SERVICE_NAME @ ''://'' @ url) (lifetime e),
                RegisterSingleTimeout_call (renewal_delay A (lifetime e)) (RegistrationTriggered_cb url)],
             m_url_map := (m_url_map st)
               (url \<mapsto> \<lparr>lifetime = lifetime e, timeout = Timeout (next_timeout (m_ss st))\<rparr>)\<rparr>)"
proof (cases "m_url_map st url")
  case None
  then show ?thesis by (simp add: RegistrationTriggered_def)
next
  case (Some e)
  have overwrite: "e\<lparr>timeout := t\<rparr> = \<lparr>lifetime = lifetime e, timeout = t\<rparr>" for t
    by (cases e) simp
  from Some show ?thesis
    by (simp add: RegistrationTriggered_def PerformRegistration_eq overwrite)
qed


subsection \<open>The queues\<close>

lemma enqueued_append: "enqueued (ops @ ops') = enqueued ops @ enqueued ops'"
  by (induction ops rule: enqueued.induct) auto

lemma incoming_op_accounts:
  "incoming_op op (st, ex) = (st', ex') \<Longrightarrow>
   ex' @ m_incoming_queue st' = ex @ m_incoming_queue st @ enqueued [op]"
  by (cases op) (auto simp: AddToIncomingQueue_def NewRequest_pop_def split: list.splits)

lemma incoming_ops_accounts:
  "incoming_ops ops (st, ex) = (st', ex') \<Longrightarrow>
   ex' @ m_incoming_queue st' = ex @ m_incoming_queue st @ enqueued ops"
proof (induction ops arbitrary: st' ex' rule: rev_induct)
  case Nil
  then show ?case by (simp add: incoming_ops_def)
next
  case (snoc op ops)
  obtain st1 ex1 where mid: "incoming_ops ops (st, ex) = (st1, ex1)"
    by (cases "incoming_ops ops (st, ex)")
  with snoc.prems have last: "incoming_op op (st1, ex1) = (st', ex')"
    by (simp add: incoming_ops_def)
  from incoming_op_accounts [OF last] snoc.IH [OF mid]
  show ?case by (simp add: enqueued_append)
qed

lemma outgoing_op_accounts:
  "outgoing_op op (st, ex) = (st', ex') \<Longrightarrow>
   ex' @ m_outgoing_queue st' = ex @ m_outgoing_queue st @ enqueued [op]"
  by (cases op) (auto simp: AddToOutgoingQueue_def RequestComplete_pop_def split: list.splits)

lemma outgoing_ops_accounts:
  "outgoing_ops ops (st, ex) = (st', ex') \<Longrightarrow>
   ex' @ m_outgoing_queue st' = ex @ m_outgoing_queue st @ enqueued ops"
proof (induction ops arbitrary: st' ex' rule: rev_induct)
  case Nil
  then show ?case by (simp add: outgoing_ops_def)
next
  case (snoc op ops)
  obtain st1 ex1 where mid: "outgoing_ops ops (st, ex) = (st1, ex1)"
    by (cases "outgoing_ops ops (st, ex)")
  with snoc.prems have last: "outgoing_op op (st1, ex1) = (st', ex')"
    by (simp add: outgoing_ops_def)
  from outgoing_op_accounts [OF last] snoc.IH [OF mid]
  show ?case by (simp add: enqueued_append)
qed

lemma drain_incoming_to_the_end:
  "incoming_ops (replicate (length (m_incoming_queue st)) Drain_pass) (st, ex) =
     (st\<lparr>m_incoming_queue := []\<rparr>, ex @ m_incoming_queue st)"
proof (induction "m_incoming_queue st" arbitrary: st ex)
  case Nil
  then show ?case by (simp add: incoming_ops_def)
next
  case (Cons cb q)
  from Cons.hyps(2) have q: "m_incoming_queue st = cb # q" by simp
  have "q = m_incoming_queue (st\<lparr>m_incoming_queue := q\<rparr>)" by simp
  from Cons.hyps(1) [OF this, of "ex @ [cb]"] q
  show ?case by (simp add: incoming_ops_def NewRequest_pop_def)
qed

lemma drain_outgoing_to_the_end:
  "outgoing_ops (replicate (length (m_outgoing_queue st)) Drain_pass) (st, ex) =
     (st\<lparr>m_outgoing_queue := []\<rparr>, ex @ m_outgoing_queue st)"
proof (induction "m_outgoing_queue st" arbitrary: st ex)
  case Nil
  then show ?case by (simp add: outgoing_ops_def)
next
  case (Cons cb q)
  from Cons.hyps(2) have q: "m_outgoing_queue st = cb # q" by simp
  have "q = m_outgoing_queue (st\<lparr>m_outgoing_queue := q\<rparr>)" by simp
  from Cons.hyps(1) [OF this, of "ex @ [cb]"] q
  show ?case by (simp add: outgoing_ops_def RequestComplete_pop_def)
qed

lemma requeue_Run_request:
  "Run_request A r cb (st\<lparr>m_incoming_queue := q\<rparr>) = (Run_request A r cb st)\<lparr>m_incoming_queue := q\<rparr>"
  by (cases cb)
     (simp_all add: Run_request_def DiscoveryRequest_eq RegisterRequest_eq DeregisterRequest_eq
        Let_def entry_timeout_def already_registered_def erase_calls_def)

lemma NewRequest_loop_runs_queue:
  "NewRequest_loop A E k st = run_requests A E k (m_incoming_queue st) (st\<lparr>m_incoming_queue := []\<rparr>)"
proof (induction "m_incoming_queue st" arbitrary: st k)
  case Nil
  then have "m_incoming_queue st = []" by simp
  then show ?case by (simp add: NewRequest_pop_def NewRequest_loop.simps [of A E k st])
next
  case (Cons cb q)
  from Cons.hyps(2) have q: "m_incoming_queue st = cb # q" by simp
  let ?st2 = "Run_request A (E k) cb (st\<lparr>m_incoming_queue := q\<rparr>)"
  have "q = m_incoming_queue ?st2" by simp
  from Cons.hyps(1) [OF this, of "Suc k"]
  have "NewRequest_loop A E (Suc k) ?st2 =
          run_requests A E (Suc k) q (Run_request A (E k) cb (st\<lparr>m_incoming_queue := []\<rparr>))"
    by (simp add: requeue_Run_request)
  with q show ?case by (simp add: NewRequest_pop_def NewRequest_loop.simps [of A E k st])
qed

lemma incoming_run_requests:
  "m_incoming_queue (run_requests A E k cbs st) = m_incoming_queue st"
  by (induction cbs arbitrary: k st) auto

subsection \<open>Init\<close>

text \<open>
  C9. Take a thread that is not initialised. If the incoming socket cannot be opened,
  \<^verbatim>\<open>Init\<close> returns false and changes nothing. If the outgoing socket cannot be opened,
  it returns false and the only change is that the incoming socket, opened by this call,
  is closed again. If \<^verbatim>\<open>SLPOpen\<close> fails, it returns false and the only change is that
  both sockets are closed again. In the three cases \<^verbatim>\<open>m_init_ok\<close> stays false, no
  socket is registered with a select server and no handle is kept. When all three steps
  succeed \<^verbatim>\<open>Init\<close> returns true and sets \<^verbatim>\<open>m_init_ok\<close>, and any further \<^verbatim>\<open>Init\<close>
  returns true and leaves the state as it is, whatever the sockets and \<^verbatim>\<open>SLPOpen\<close>
  would answer.
\<close>

theorem Init_failure_releases_everything:
  "(\<not> m_init_ok st \<and> \<not> in_opened \<longrightarrow>
      Init in_opened out_opened err st = (False, st)) \<and>
   (\<not> m_init_ok st \<and> in_opened \<and> \<not> out_opened \<longrightarrow>
      Init in_opened out_opened err st =
        (False, st\<lparr>m_incoming_socket := socket_Close (m_incoming_socket st)\<rparr>)) \<and>
   (\<not> m_init_ok st \<and> in_opened \<and> out_opened \<and> err \<noteq> SLP_OK \<longrightarrow>
      Init in_opened out_opened err st =
        (False, st\<lparr>m_incoming_socket := socket_Close (m_incoming_socket st),
                   m_outgoing_socket := socket_Close (m_outgoing_socket st)\<rparr>)) \<and>
   (\<not> m_init_ok st \<and> in_opened \<and> out_opened \<and> err = SLP_OK \<longrightarrow>
      fst (Init in_opened out_opened err st) \<and>
      m_init_ok (snd (Init in_opened out_opened err st)) \<and>
      Init in_opened' out_opened' err' (snd (Init in_opened out_opened err st)) =
        (True, snd (Init in_opened out_opened err st)))"
  by (simp add: Init_def socket_Init_def socket_Close_def Let_def)

theorem Init_failure_releases_everything_witness:
  "Init False True SLP_OK (SlpThread_new SelectServer_new None 60) =
     (False, SlpThread_new SelectServer_new None 60)
   \<and> Init True False SLP_OK (SlpThread_new SelectServer_new None 60) =
     (False, SlpThread_new SelectServer_new None 60)
   \<and> Init True True (- 1) (SlpThread_new SelectServer_new None 60) =
     (False, SlpThread_new SelectServer_new None 60)
   \<and> fst (Init True True SLP_OK (SlpThread_new SelectServer_new None 60))
   \<and> Init False False (- 1) (snd (Init True True SLP_OK (SlpThread_new SelectServer_new None 60))) =
     (True, snd (Init True True SLP_OK (SlpThread_new SelectServer_new None 60)))"
  using Init_failure_releases_everything
      [of "SlpThread_new SelectServer_new None 60" False True SLP_OK]
    Init_failure_releases_everything
      [of "SlpThread_new SelectServer_new None 60" True False SLP_OK]
    Init_failure_releases_everything
      [of "SlpThread_new SelectServer_new None 60" True True "- 1"]
    Init_failure_releases_everything
      [of "SlpThread_new SelectServer_new None 60" True True SLP_OK False False "- 1"]
  by (simp add: SlpThread_new_def LoopbackSocket_new_def socket_Close_def SLP_OK_def)

subsection \<open>Registration\<close>

lemma registered_thread_eq:
  "registered_thread =
     a_thread\<lparr>m_ss := \<lparr>timeouts = [(0, 14000, RegistrationTriggered_cb ''u'')],
                        next_timeout = 1, sockets = {}\<rparr>,
              m_url_map := [''u'' \<mapsto> \<lparr>lifetime = 30, timeout = Timeout 0\<rparr>],
              m_outgoing_socket := \<lparr>sock_open = False, sock_pending = 1\<rparr>,
              m_outgoing_queue := [SimpleActionComplete_cb 1 True],
              call_log := [SLPGetRefreshInterval_call,
                 SLPReg_call ''service:e133.esta://u'' 30,
                 RegisterSingleTimeout_call 14000 (RegistrationTriggered_cb ''u'')]\<rparr>"
  by (simp add: registered_thread_def a_thread_def RegisterRequest_eq Let_def
      already_registered_def granted_lifetime_def MIN_LIFETIME_def SlpThread_new_def
      SelectServer_new_def LoopbackSocket_new_def RegisterSingleTimeout_def entry_timeout_def
      cancel_calls_def renewal_delay_def registration_ok_def reg_succeeds_def
      reg_callbackerr_def RegisterCallback_def WakeUpSocket_def SERVICE_NAME_def)

text \<open>
  C4. When \<^verbatim>\<open>RegisterRequest\<close> runs for a url whose entry holds the lifetime that the
  request comes to after the two clamps, the only changes to the state are the query of
  the refresh interval, the completion with \<^verbatim>\<open>ok = true\<close> at the end of the outgoing
  queue and the wake-up byte for the main thread: \<^verbatim>\<open>SLPReg\<close> is not called, the map
  entry and the timers are as before. Run on the main thread, the completion hands
  \<^verbatim>\<open>true\<close> to the caller's callback.
\<close>

theorem reregistration_with_same_lease_is_skipped:
  assumes "m_url_map st url = Some e"
    and "lifetime e = granted_lifetime min_lifetime lt0"
  shows "RegisterRequest A min_lifetime reply callback url lt0 st =
           st\<lparr>m_outgoing_socket := WakeUpSocket (m_outgoing_socket st),
              m_outgoing_queue := m_outgoing_queue st @ [SimpleActionComplete_cb callback True],
              call_log := call_log st @ [SLPGetRefreshInterval_call]\<rparr>
         \<and> Run_completion (SimpleActionComplete_cb callback True) s =
           Some (s\<lparr>delivered := delivered s @ [RegistrationResult callback True]\<rparr>)"
  using assms
  by (simp add: RegisterRequest_eq Let_def already_registered_def Run_completion_def
      SimpleActionComplete_def)

theorem reregistration_with_same_lease_is_skipped_witness:
  "call_log (RegisterRequest 15 0 reg_fails 2 ''u'' 30 registered_thread) =
     [SLPGetRefreshInterval_call, SLPReg_call ''service:e133.esta://u'' 30,
      RegisterSingleTimeout_call 14000 (RegistrationTriggered_cb ''u''),
      SLPGetRefreshInterval_call]
   \<and> m_outgoing_queue (RegisterRequest 15 0 reg_fails 2 ''u'' 30 registered_thread) =
     [SimpleActionComplete_cb 1 True, SimpleActionComplete_cb 2 True]
   \<and> m_url_map (RegisterRequest 15 0 reg_fails 2 ''u'' 30 registered_thread) =
     m_url_map registered_thread
   \<and> m_ss (RegisterRequest 15 0 reg_fails 2 ''u'' 30 registered_thread) = m_ss registered_thread"
  using reregistration_with_same_lease_is_skipped
    [of registered_thread "''u''" "\<lparr>lifetime = 30, timeout = Timeout 0\<rparr>" 0 30 15 reg_fails 2]
  by (simp add: registered_thread_eq granted_lifetime_def MIN_LIFETIME_def)


subsection \<open>Deregistration\<close>

lemma fire_timeout_not_pending:
  "n \<notin> fst ` set (timeouts ss) \<Longrightarrow> fire_timeout n ss = (None, ss)"
proof -
  assume "n \<notin> fst ` set (timeouts ss)"
  then have "filter (\<lambda>e. fst e = n) (timeouts ss) = []"
    by (auto simp: filter_empty_conv)
  then show ?thesis by (simp add: fire_timeout_def)
qed

lemma RemoveTimeout_not_pending:
  "n \<notin> fst ` set (timeouts (RemoveTimeout (Timeout n) ss))"
  by (auto simp: RemoveTimeout_def)

text \<open>
  C5. After \<^verbatim>\<open>DeregisterRequest\<close> the map has no entry for the url. If there was an
  entry, its timer, when it had one, was cancelled and the entry erased, in this order
  and before the call of \<^verbatim>\<open>SLPDereg\<close>; the cancelled timer is not pending any more
  and nothing happens should the select server be asked to fire it. \<^verbatim>\<open>SLPDereg\<close> is
  called whether there was an entry or not. \<^verbatim>\<open>RegistrationTriggered\<close> for the url then
  returns the state as it is: no call, no new entry, no new timer.
\<close>

theorem deregistration_erases_entry_and_timer_first:
  "m_url_map (DeregisterRequest reply callback url st) url = None
   \<and> (m_url_map st url = None \<longrightarrow>
        call_log (DeregisterRequest reply callback url st) =
          call_log st @ [SLPDereg_call (SERVICE_NAME @ ''://'' @ url)]
        \<and> m_ss (DeregisterRequest reply callback url st) = m_ss st)
   \<and> (m_url_map st url = Some \<lparr>lifetime = l, timeout = INVALID_TIMEOUT\<rparr> \<longrightarrow>
        call_log (DeregisterRequest reply callback url st) =
          call_log st @ [url_map_erase_call url, SLPDereg_call (SERVICE_NAME @ ''://'' @ url)]
        \<and> m_ss (DeregisterRequest reply callback url st) = m_ss st)
   \<and> (m_url_map st url = Some \<lparr>lifetime = l, timeout = Timeout n\<rparr> \<longrightarrow>
        call_log (DeregisterRequest reply callback url st) =
          call_log st @ [RemoveTimeout_call (Timeout n), url_map_erase_call url,
                         SLPDereg_call (SERVICE_NAME @ ''://'' @ url)]
        \<and> m_ss (DeregisterRequest reply callback url st) = RemoveTimeout (Timeout n) (m_ss st)
        \<and> n \<notin> fst ` set (timeouts (m_ss (DeregisterRequest reply callback url st)))
        \<and> step A (Timeout_fires n r) (DeregisterRequest reply callback url st) =
            Some (DeregisterRequest reply callback url st))
   \<and> RegistrationTriggered A reply' url (DeregisterRequest reply callback url st) =
       DeregisterRequest reply callback url st
   \<and> Run_timer A r (RegistrationTriggered_cb url) (DeregisterRequest reply callback url st) =
       DeregisterRequest reply callback url st"
proof -
  let ?st' = "DeregisterRequest reply callback url st"
  have gone: "m_url_map ?st' url = None"
    by (simp add: DeregisterRequest_eq)
  have none: "m_url_map st url = None \<longrightarrow>
        call_log ?st' = call_log st @ [SLPDereg_call (SERVICE_NAME @ ''://'' @ url)]
        \<and> m_ss ?st' = m_ss st"
    by (simp add: DeregisterRequest_eq erase_calls_def entry_timeout_def)
  have invalid: "m_url_map st url = Some \<lparr>lifetime = l, timeout = INVALID_TIMEOUT\<rparr> \<longrightarrow>
        call_log ?st' =
          call_log st @ [url_map_erase_call url, SLPDereg_call (SERVICE_NAME @ ''://'' @ url)]
        \<and> m_ss ?st' = m_ss st"
    by (simp add: DeregisterRequest_eq erase_calls_def entry_timeout_def cancel_calls_def)
  have valid: "m_url_map st url = Some \<lparr>lifetime = l, timeout = Timeout n\<rparr> \<longrightarrow>
        call_log ?st' =
          call_log st @ [RemoveTimeout_call (Timeout n), url_map_erase_call url,
                         SLPDereg_call (SERVICE_NAME @ ''://'' @ url)]
        \<and> m_ss ?st' = RemoveTimeout (Timeout n) (m_ss st)
        \<and> n \<notin> fst ` set (timeouts (m_ss ?st'))
        \<and> step A (Timeout_fires n r) ?st' = Some ?st'"
  proof
    assume e: "m_url_map st url = Some \<lparr>lifetime = l, timeout = Timeout n\<rparr>"
    then have ss: "m_ss ?st' = RemoveTimeout (Timeout n) (m_ss st)"
      by (simp add: DeregisterRequest_eq entry_timeout_def)
    then have np: "n \<notin> fst ` set (timeouts (m_ss ?st'))"
      by (simp only: RemoveTimeout_not_pending not_False_eq_True)
    from e have log: "call_log ?st' =
          call_log st @ [RemoveTimeout_call (Timeout n), url_map_erase_call url,
                         SLPDereg_call (SERVICE_NAME @ ''://'' @ url)]"
      by (simp add: DeregisterRequest_eq erase_calls_def cancel_calls_def)
    from fire_timeout_not_pending [OF np]
    have "step A (Timeout_fires n r) ?st' = Some ?st'"
      by (simp add: step_def)
    with ss np log show "call_log ?st' =
          call_log st @ [RemoveTimeout_call (Timeout n), url_map_erase_call url,
                         SLPDereg_call (SERVICE_NAME @ ''://'' @ url)]
        \<and> m_ss ?st' = RemoveTimeout (Timeout n) (m_ss st)
        \<and> n \<notin> fst ` set (timeouts (m_ss ?st'))
        \<and> step A (Timeout_fires n r) ?st' = Some ?st'"
      by blast
  qed
  from gone have noop: "RegistrationTriggered A reply' url ?st' = ?st'"
    by (simp add: RegistrationTriggered_def)
  then have noop': "Run_timer A r (RegistrationTriggered_cb url) ?st' = ?st'"
    by (simp add: Run_timer_def RegistrationTriggered_def gone)
  from gone none invalid valid noop noop' show ?thesis by blast
qed

theorem deregistration_erases_entry_and_timer_first_witness:
  "call_log (DeregisterRequest reg_succeeds 2 ''u'' registered_thread) =
     [SLPGetRefreshInterval_call, SLPReg_call ''service:e133.esta://u'' 30,
      RegisterSingleTimeout_call 14000 (RegistrationTriggered_cb ''u''),
      RemoveTimeout_call (Timeout 0), url_map_erase_call ''u'',
      SLPDereg_call ''service:e133.esta://u'']
   \<and> timeouts (m_ss (DeregisterRequest reg_succeeds 2 ''u'' registered_thread)) = []
   \<and> m_url_map (DeregisterRequest reg_succeeds 2 ''u'' registered_thread) ''u'' = None
   \<and> step 15 (Timeout_fires 0 all_succeed) (DeregisterRequest reg_succeeds 2 ''u'' registered_thread) =
       Some (DeregisterRequest reg_succeeds 2 ''u'' registered_thread)
   \<and> RegistrationTriggered 15 reg_succeeds ''u'' (DeregisterRequest reg_succeeds 2 ''u'' registered_thread) =
       DeregisterRequest reg_succeeds 2 ''u'' registered_thread
   \<and> call_log (DeregisterRequest reg_fails 2 ''u'' a_thread) = [SLPDereg_call ''service:e133.esta://u'']"
proof -
  have entry: "m_url_map registered_thread ''u'' = Some \<lparr>lifetime = 30, timeout = Timeout 0\<rparr>"
    by (simp add: registered_thread_eq)
  have no_entry: "m_url_map a_thread ''u'' = None"
    by (simp add: a_thread_def SlpThread_new_def)
  have log: "call_log registered_thread =
     [SLPGetRefreshInterval_call, SLPReg_call ''service:e133.esta://u'' 30,
      RegisterSingleTimeout_call 14000 (RegistrationTriggered_cb ''u'')]"
    by (simp add: registered_thread_eq)
  have timers: "timeouts (RemoveTimeout (Timeout 0) (m_ss registered_thread)) = []"
    by (simp add: registered_thread_eq RemoveTimeout_def)
  have log0: "call_log a_thread = []"
    by (simp add: a_thread_def SlpThread_new_def)
  from deregistration_erases_entry_and_timer_first
      [of reg_succeeds 2 "''u''" registered_thread 30 0 15 all_succeed reg_succeeds]
    deregistration_erases_entry_and_timer_first
      [of reg_fails 2 "''u''" a_thread 30 0 15 all_succeed reg_succeeds]
    entry no_entry log timers log0
  show ?thesis by (simp add: SERVICE_NAME_def)
qed

subsection \<open>The reported flag\<close>

lemma find_cookie_snoc:
  "find_cookie (r\<lparr>fr_calls := cs @ [(u, l, e)]\<rparr>) = ServiceCallback u l e (find_cookie (r\<lparr>fr_calls := cs\<rparr>))"
  by (simp add: find_cookie_def)

lemma find_cookie_error:
  "error (find_cookie r) =
     (case rev (fr_calls r) of
        [] \<Rightarrow> fr_uninit r
      | (u, l, e) # _ \<Rightarrow> if e = SLP_LAST_CALL then SLP_OK else e)"
proof (cases "fr_calls r" rule: rev_cases)
  case Nil
  then show ?thesis by (simp add: find_cookie_def)
next
  case (snoc cs c)
  obtain u l e where c: "c = (u, l, e)" by (cases c)
  with snoc show ?thesis
    by (simp add: find_cookie_def ServiceCallback_def)
qed

lemma reg_callbackerr_last:
  "reg_callbackerr r = last (rr_uninit r # rr_calls r)"
proof (cases "rr_calls r" rule: rev_cases)
  case Nil
  then show ?thesis by (simp add: reg_callbackerr_def)
next
  case (snoc cs c)
  then show ?thesis by (simp add: reg_callbackerr_def RegisterCallback_def)
qed

text \<open>
  C8 (amended). The flag in the completion that a request puts on the outgoing queue,
  which the main thread hands to the caller's callback, is true exactly when the SLP
  call returned \<^verbatim>\<open>SLP_OK\<close> and the error in the cookie after the call is
  \<^verbatim>\<open>SLP_OK\<close>: for \<^verbatim>\<open>DiscoveryRequest\<close> with \<^verbatim>\<open>SLPFindSrvs\<close> and
  \<^verbatim>\<open>ServiceCallback\<close>, for \<^verbatim>\<open>DeregisterRequest\<close> with \<^verbatim>\<open>SLPDereg\<close> and
  \<^verbatim>\<open>RegisterCallback\<close>, and for \<^verbatim>\<open>RegisterRequest\<close> with \<^verbatim>\<open>SLPReg\<close> and
  \<^verbatim>\<open>RegisterCallback\<close> whenever it calls \<^verbatim>\<open>SLPReg\<close> at all (it does not, and
  reports true, when the url is registered with that lifetime already). Once the
  callback has been invoked, the error in the cookie is the one of its last invocation
  alone, where \<^verbatim>\<open>ServiceCallback\<close> stores \<^verbatim>\<open>SLP_OK\<close> for \<^verbatim>\<open>SLP_LAST_CALL\<close>:
  an error of an earlier invocation that a later one overwrites does not make the flag
  false.
\<close>

theorem reported_flag_joins_return_code_and_last_callback_error:
  "m_outgoing_queue (DiscoveryRequest freply st) =
     m_outgoing_queue st @
       [DiscoveryActionComplete_cb
          (fr_ret freply = SLP_OK \<and> error (find_cookie freply) = SLP_OK)
          (map fst (urls (find_cookie freply)))]
   \<and> m_outgoing_queue (RegisterRequest A m reply callback url lt0 st) =
     m_outgoing_queue st @
       [SimpleActionComplete_cb callback
          (if already_registered st url (granted_lifetime m lt0) then True
           else rr_ret reply = SLP_OK \<and> reg_callbackerr reply = SLP_OK)]
   \<and> call_log (RegisterRequest A m reply callback url lt0 st) =
     (if already_registered st url (granted_lifetime m lt0)
      then call_log st @ [SLPGetRefreshInterval_call]
      else call_log st @ [SLPGetRefreshInterval_call] @ cancel_calls (entry_timeout st url) @
        [SLPReg_call (SERVICE_NAME @ ''://'' @ url) (granted_lifetime m lt0),
         RegisterSingleTimeout_call (renewal_delay A (granted_lifetime m lt0))
           (RegistrationTriggered_cb url)])
   \<and> m_outgoing_queue (DeregisterRequest reply callback url st) =
     m_outgoing_queue st @
       [SimpleActionComplete_cb callback
          (rr_ret reply = SLP_OK \<and> reg_callbackerr reply = SLP_OK)]
   \<and> fst (PerformRegistration A reply url lt st) =
     (rr_ret reply = SLP_OK \<and> reg_callbackerr reply = SLP_OK)
   \<and> error (find_cookie (freply\<lparr>fr_calls := cs @ [(u, l, e)]\<rparr>)) =
     (if e = SLP_LAST_CALL then SLP_OK else e)
   \<and> reg_callbackerr (reply\<lparr>rr_calls := es @ [e']\<rparr>) = e'
   \<and> Run_completion (SimpleActionComplete_cb callback ok) st =
     Some (st\<lparr>delivered := delivered st @ [RegistrationResult callback ok]\<rparr>)
   \<and> Run_completion (DiscoveryActionComplete_cb ok us) (st\<lparr>m_discovery_callback := Some d\<rparr>) =
     Some (st\<lparr>m_discovery_callback := Some d, delivered := delivered st @ [DiscoveryResult ok us]\<rparr>)"
proof -
  have d: "m_outgoing_queue (DiscoveryRequest freply st) =
     m_outgoing_queue st @
       [DiscoveryActionComplete_cb
          (fr_ret freply = SLP_OK \<and> error (find_cookie freply) = SLP_OK)
          (map fst (urls (find_cookie freply)))]"
    by (simp add: DiscoveryRequest_eq discovery_ok_def)
  have r: "m_outgoing_queue (RegisterRequest A m reply callback url lt0 st) =
     m_outgoing_queue st @
       [SimpleActionComplete_cb callback
          (if already_registered st url (granted_lifetime m lt0) then True
           else rr_ret reply = SLP_OK \<and> reg_callbackerr reply = SLP_OK)]"
    by (simp add: RegisterRequest_eq Let_def registration_ok_def)
  have rl: "call_log (RegisterRequest A m reply callback url lt0 st) =
     (if already_registered st url (granted_lifetime m lt0)
      then call_log st @ [SLPGetRefreshInterval_call]
      else call_log st @ [SLPGetRefreshInterval_call] @ cancel_calls (entry_timeout st url) @
        [SLPReg_call (SERVICE_NAME @ ''://'' @ url) (granted_lifetime m lt0),
         RegisterSingleTimeout_call (renewal_delay A (granted_lifetime m lt0))
           (RegistrationTriggered_cb url)])"
    by (simp add: RegisterRequest_eq Let_def)
  have u: "m_outgoing_queue (DeregisterRequest reply callback url st) =
     m_outgoing_queue st @
       [SimpleActionComplete_cb callback
          (rr_ret reply = SLP_OK \<and> reg_callbackerr reply = SLP_OK)]"
    by (simp add: DeregisterRequest_eq registration_ok_def)
  have p: "fst (PerformRegistration A reply url lt st) =
     (rr_ret reply = SLP_OK \<and> reg_callbackerr reply = SLP_OK)"
    by (simp add: PerformRegistration_eq registration_ok_def)
  have fc: "error (find_cookie (freply\<lparr>fr_calls := cs @ [(u, l, e)]\<rparr>)) =
     (if e = SLP_LAST_CALL then SLP_OK else e)"
    by (simp add: find_cookie_error)
  have rc: "reg_callbackerr (reply\<lparr>rr_calls := es @ [e']\<rparr>) = e'"
    by (simp add: reg_callbackerr_last)
  have c1: "Run_completion (SimpleActionComplete_cb callback ok) st =
     Some (st\<lparr>delivered := delivered st @ [RegistrationResult callback ok]\<rparr>)"
    by (simp add: Run_completion_def SimpleActionComplete_def)
  have c2: "Run_completion (DiscoveryActionComplete_cb ok us) (st\<lparr>m_discovery_callback := Some d\<rparr>) =
     Some (st\<lparr>m_discovery_callback := Some d, delivered := delivered st @ [DiscoveryResult ok us]\<rparr>)"
    by (simp add: Run_completion_def DiscoveryActionComplete_def)
  from d r rl u p fc rc c1 c2 show ?thesis by blast
qed

text \<open>
  C8 (as stated) fails: an error delivered to the callback and overwritten by a later
  invocation is reported as success. \<^verbatim>\<open>SLPFindSrvs\<close> returns \<^verbatim>\<open>SLP_OK\<close> after it has
  invoked \<^verbatim>\<open>ServiceCallback\<close> with the error \<open>- 2\<close> and then with
  \<^verbatim>\<open>SLP_LAST_CALL\<close>; \<^verbatim>\<open>SLPReg\<close> returns \<^verbatim>\<open>SLP_OK\<close> after it has invoked
  \<^verbatim>\<open>RegisterCallback\<close> with the error \<open>- 3\<close> and then with \<^verbatim>\<open>SLP_OK\<close>. Both
  completions carry \<^verbatim>\<open>true\<close>.
\<close>

theorem overwritten_callback_error_is_reported_as_success:
  "m_outgoing_queue
     (DiscoveryRequest
        \<lparr>fr_ret = SLP_OK, fr_calls = [(''X'', 7, - 2), ([], 0, SLP_LAST_CALL)], fr_uninit = - 7\<rparr>
        a_thread) =
     [DiscoveryActionComplete_cb True []]
   \<and> m_outgoing_queue
     (RegisterRequest 15 0 \<lparr>rr_ret = SLP_OK, rr_calls = [- 3, SLP_OK], rr_uninit = - 7\<rparr>
        1 ''u'' 30 a_thread) =
     [SimpleActionComplete_cb 1 True]
   \<and> (- 2 :: SLPError) \<noteq> SLP_OK \<and> (- 2 :: SLPError) \<noteq> SLP_LAST_CALL
   \<and> (- 3 :: SLPError) \<noteq> SLP_OK"
  by (simp add: DiscoveryRequest_eq RegisterRequest_eq Let_def discovery_ok_def registration_ok_def
      find_cookie_def ServiceCallback_def reg_callbackerr_def RegisterCallback_def
      already_registered_def a_thread_def SlpThread_new_def SLP_OK_def SLP_LAST_CALL_def)

subsection \<open>Discovery\<close>

lemma Min_insert_min:
  fixes a :: "'a :: linorder"
  assumes "finite S"
  shows "Min (insert (min a b) S) = Min (insert b (insert a S))"
proof (cases "S = {}")
  case True
  then show ?thesis by (simp add: min.commute)
next
  case False
  with assms show ?thesis by (simp add: min.assoc min.commute min.left_commute)
qed

lemma foldl_min_Min:
  fixes d :: "'a :: linorder"
  shows "foldl (\<lambda>d p. min (snd p) d) d xs = Min (insert d (snd ` set xs))"
proof (induction xs arbitrary: d)
  case Nil
  show ?case by simp
next
  case (Cons x xs)
  have "foldl (\<lambda>d p. min (snd p) d) d (x # xs) = Min (insert (min (snd x) d) (snd ` set xs))"
    by (simp add: Cons.IH)
  also have "\<dots> = Min (insert d (insert (snd x) (snd ` set xs)))"
    by (rule Min_insert_min) simp
  finally show ?case by (simp add: insert_commute)
qed

lemma unat_ucast_ushort: "unat (ucast (w :: unsigned_int) :: ushort) = unat w mod 65536"
  by (simp add: unsigned_ucast_eq take_bit_eq_mod)

lemma next_discovery_duration_success:
  assumes "discovery_ok reply" and "unat refresh_time < 65536"
  shows "unat (next_discovery_duration refresh_time reply) =
           Min (insert (unat refresh_time) (unat ` snd ` set (urls (find_cookie reply))))"
proof -
  let ?S = "insert (ucast refresh_time :: ushort) (snd ` set (urls (find_cookie reply)))"
  have base: "unat (ucast refresh_time :: ushort) = unat refresh_time"
    using assms(2) by (simp add: unat_ucast_ushort)
  have "unat (Min ?S) = Min (unat ` ?S)"
    by (rule mono_Min_commute) (auto simp: mono_def word_le_nat_alt)
  with assms(1) base show ?thesis
    by (simp add: next_discovery_duration_def foldl_min_Min)
qed

lemma next_discovery_duration_failure:
  assumes "\<not> discovery_ok reply" and "unat refresh_time < 65536"
  shows "unat (next_discovery_duration refresh_time reply) = unat refresh_time"
  using assms by (simp add: next_discovery_duration_def unat_ucast_ushort)

lemma next_discovery_duration_wraps:
  assumes "\<not> discovery_ok reply"
  shows "unat (next_discovery_duration refresh_time reply) = unat refresh_time mod 65536"
  using assms by (simp add: next_discovery_duration_def unat_ucast_ushort)

lemma discovery_timer:
  "timeouts (m_ss (DiscoveryRequest reply st)) =
     timeouts (RemoveTimeout (m_discovery_timeout st) (m_ss st)) @
       [(next_timeout (m_ss st),
         int (unat (next_discovery_duration (m_refresh_time st) reply)) * 1000,
         DiscoveryTriggered_cb)]
   \<and> m_discovery_timeout (DiscoveryRequest reply st) = Timeout (next_timeout (m_ss st))"
  by (simp add: DiscoveryRequest_eq RegisterSingleTimeout_def)

lemma discovery_ok_find_two_services: "discovery_ok find_two_services"
  by (simp add: discovery_ok_def find_two_services_def find_cookie_def ServiceCallback_def
      SLP_OK_def SLP_LAST_CALL_def)

lemma urls_find_two_services: "urls (find_cookie find_two_services) = [(''A'', 10), (''B'', 30)]"
  by (simp add: find_two_services_def find_cookie_def ServiceCallback_def
      SLP_OK_def SLP_LAST_CALL_def)

text \<open>
  C2. Where the refresh time is below 65536 the delay of a successful discovery is the
  least of the refresh time and the advertised lifetimes, in seconds
  (\<open>next_discovery_duration_success\<close>). The refresh time is an \<^verbatim>\<open>unsigned int\<close> and is
  stored to an \<^verbatim>\<open>unsigned short\<close> first: with a refresh time of 65541 seconds and the
  services (A, 10) and (B, 30) the timer is armed for 5 seconds, not 10. With a refresh
  time of 60 seconds it is armed for 10 seconds.
\<close>

theorem successful_discovery_with_refresh_65541:
  "DiscoveryRequest find_two_services (SlpThread_new SelectServer_new (Some 0) 65541) =
     (SlpThread_new SelectServer_new (Some 0) 65541)
       \<lparr>m_ss := \<lparr>timeouts = [(0, 5000, DiscoveryTriggered_cb)], next_timeout = 1, sockets = {}\<rparr>,
        m_discovery_timeout := Timeout 0,
        m_outgoing_socket := \<lparr>sock_open = False, sock_pending = 1\<rparr>,
        m_outgoing_queue := [DiscoveryActionComplete_cb True [''A'', ''B'']],
        call_log := [SLPFindSrvs_call ''service:e133.esta'',
                     RegisterSingleTimeout_call 5000 DiscoveryTriggered_cb]\<rparr>
   \<and> DiscoveryRequest find_two_services (SlpThread_new SelectServer_new (Some 0) 60) =
     (SlpThread_new SelectServer_new (Some 0) 60)
       \<lparr>m_ss := \<lparr>timeouts = [(0, 10000, DiscoveryTriggered_cb)], next_timeout = 1, sockets = {}\<rparr>,
        m_discovery_timeout := Timeout 0,
        m_outgoing_socket := \<lparr>sock_open = False, sock_pending = 1\<rparr>,
        m_outgoing_queue := [DiscoveryActionComplete_cb True [''A'', ''B'']],
        call_log := [SLPFindSrvs_call ''service:e133.esta'',
                     RegisterSingleTimeout_call 10000 DiscoveryTriggered_cb]\<rparr>"
  by (simp add: DiscoveryRequest_eq discovery_ok_find_two_services urls_find_two_services
      next_discovery_duration_def SlpThread_new_def SelectServer_new_def LoopbackSocket_new_def
      RegisterSingleTimeout_def cancel_calls_def WakeUpSocket_def SERVICE_NAME_def)

lemma not_discovery_ok_find_fails: "\<not> discovery_ok find_fails"
  by (simp add: discovery_ok_def find_fails_def SLP_OK_def)

lemma urls_find_fails: "urls (find_cookie find_fails) = []"
  by (simp add: find_fails_def find_cookie_def)

text \<open>
  C7. When \<^verbatim>\<open>SLPFindSrvs\<close> fails, the completion with \<^verbatim>\<open>ok = false\<close> is put on the
  outgoing queue and a timer for the next discovery is armed; where the refresh time is
  below 65536 its delay is the refresh time (\<open>next_discovery_duration_failure\<close>). The
  refresh time is an \<^verbatim>\<open>unsigned int\<close> and is stored to an \<^verbatim>\<open>unsigned short\<close> first:
  with a refresh time of 70000 seconds the timer is armed for 4464 seconds. With a
  refresh time of 60 seconds it is armed for 60 seconds.
\<close>

theorem failed_discovery_with_refresh_70000:
  "DiscoveryRequest find_fails (SlpThread_new SelectServer_new (Some 0) 70000) =
     (SlpThread_new SelectServer_new (Some 0) 70000)
       \<lparr>m_ss := \<lparr>timeouts = [(0, 4464000, DiscoveryTriggered_cb)], next_timeout = 1, sockets = {}\<rparr>,
        m_discovery_timeout := Timeout 0,
        m_outgoing_socket := \<lparr>sock_open = False, sock_pending = 1\<rparr>,
        m_outgoing_queue := [DiscoveryActionComplete_cb False []],
        call_log := [SLPFindSrvs_call ''service:e133.esta'',
                     RegisterSingleTimeout_call 4464000 DiscoveryTriggered_cb]\<rparr>
   \<and> DiscoveryRequest find_fails (SlpThread_new SelectServer_new (Some 0) 60) =
     (SlpThread_new SelectServer_new (Some 0) 60)
       \<lparr>m_ss := \<lparr>timeouts = [(0, 60000, DiscoveryTriggered_cb)], next_timeout = 1, sockets = {}\<rparr>,
        m_discovery_timeout := Timeout 0,
        m_outgoing_socket := \<lparr>sock_open = False, sock_pending = 1\<rparr>,
        m_outgoing_queue := [DiscoveryActionComplete_cb False []],
        call_log := [SLPFindSrvs_call ''service:e133.esta'',
                     RegisterSingleTimeout_call 60000 DiscoveryTriggered_cb]\<rparr>"
  by (simp add: DiscoveryRequest_eq not_discovery_ok_find_fails urls_find_fails
      next_discovery_duration_def SlpThread_new_def SelectServer_new_def LoopbackSocket_new_def
      RegisterSingleTimeout_def cancel_calls_def WakeUpSocket_def SERVICE_NAME_def)

subsection \<open>The lifetime of a registration\<close>

lemma granted_lifetime_max: "granted_lifetime m lt0 = max (max lt0 MIN_LIFETIME) m"
  by (auto simp: granted_lifetime_def max_def word_le_0_iff not_less)

lemma lifetime_after_RegisterRequest:
  "map_option lifetime (m_url_map (RegisterRequest A m reply cb url lt0 st) url) =
     Some (granted_lifetime m lt0)"
  by (auto simp: RegisterRequest_eq Let_def already_registered_def split: option.splits)

lemma unat_of_nat_ushort: "n < 65536 \<Longrightarrow> unat (of_nat n :: ushort) = n"
  by (simp add: unsigned_of_nat take_bit_nat_eq_self)

lemma Register_enqueues:
  "m_incoming_queue (Register A cb url lt st) =
     m_incoming_queue st @
       [RegisterRequest_cb cb url (if unat lt \<le> A * 2 then of_nat (2 * A) else lt)]"
  by (simp add: Register_def Let_def AddToIncomingQueue_def)

text \<open>
  C3 (amended). \<^verbatim>\<open>RegisterRequest\<close> raises the lifetime it is given to at least
  \<^verbatim>\<open>MIN_LIFETIME\<close>, which is 5, and then to at least the refresh interval of the
  server (an interval of 0 changes nothing): it goes on with the largest of the three.
  That lifetime is the one in the map entry afterwards and the one passed to
  \<^verbatim>\<open>SLPReg\<close>, so none below the floor is used. A lifetime of 1 given to
  \<^verbatim>\<open>RegisterRequest\<close> with a server interval of 0 becomes 5. The public
  \<^verbatim>\<open>Register\<close> hands over the lifetime of its caller only when it is above twice the
  aging time, and twice the aging time otherwise: with an aging time of at least 1 a
  caller's lifetime of 1 reaches \<^verbatim>\<open>RegisterRequest\<close> as twice the aging time and is
  granted at the larger of that and 5.
\<close>

theorem RegisterRequest_clamps_the_lease:
  "granted_lifetime m lt0 = max (max lt0 MIN_LIFETIME) m
   \<and> unat MIN_LIFETIME = 5
   \<and> MIN_LIFETIME \<le> granted_lifetime m lt0
   \<and> m \<le> granted_lifetime m lt0
   \<and> map_option lifetime (m_url_map (RegisterRequest A m reply cb url lt0 st) url) =
       Some (granted_lifetime m lt0)
   \<and> call_log (RegisterRequest A m reply cb url lt0 st) =
       (if already_registered st url (granted_lifetime m lt0)
        then call_log st @ [SLPGetRefreshInterval_call]
        else call_log st @ [SLPGetRefreshInterval_call] @ cancel_calls (entry_timeout st url) @
          [SLPReg_call (SERVICE_NAME @ ''://'' @ url) (granted_lifetime m lt0),
           RegisterSingleTimeout_call (renewal_delay A (granted_lifetime m lt0))
             (RegistrationTriggered_cb url)])
   \<and> granted_lifetime 0 1 = 5
   \<and> m_incoming_queue (Register A cb url lt st) =
       m_incoming_queue st @
         [RegisterRequest_cb cb url (if unat lt \<le> A * 2 then of_nat (2 * A) else lt)]
   \<and> (1 \<le> A \<and> 2 * A < 65536 \<longrightarrow>
        m_incoming_queue (Register A cb url 1 st) =
          m_incoming_queue st @ [RegisterRequest_cb cb url (of_nat (2 * A))]
        \<and> unat (granted_lifetime 0 (of_nat (2 * A))) = max (2 * A) 5)"
proof -
  have floor: "unat MIN_LIFETIME = 5"
    by (simp add: MIN_LIFETIME_def)
  have ge_floor: "MIN_LIFETIME \<le> granted_lifetime m lt0"
    by (simp add: granted_lifetime_max le_max_iff_disj)
  have ge_min: "m \<le> granted_lifetime m lt0"
    by (simp add: granted_lifetime_max le_max_iff_disj)
  have log: "call_log (RegisterRequest A m reply cb url lt0 st) =
       (if already_registered st url (granted_lifetime m lt0)
        then call_log st @ [SLPGetRefreshInterval_call]
        else call_log st @ [SLPGetRefreshInterval_call] @ cancel_calls (entry_timeout st url) @
          [SLPReg_call (SERVICE_NAME @ ''://'' @ url) (granted_lifetime m lt0),
           RegisterSingleTimeout_call (renewal_delay A (granted_lifetime m lt0))
             (RegistrationTriggered_cb url)])"
    by (simp add: RegisterRequest_eq Let_def)
  have one: "granted_lifetime 0 1 = 5"
    by (simp add: granted_lifetime_def MIN_LIFETIME_def)
  have pub: "1 \<le> A \<and> 2 * A < 65536 \<longrightarrow>
        m_incoming_queue (Register A cb url 1 st) =
          m_incoming_queue st @ [RegisterRequest_cb cb url (of_nat (2 * A))]
        \<and> unat (granted_lifetime 0 (of_nat (2 * A))) = max (2 * A) 5"
  proof
    assume a: "1 \<le> A \<and> 2 * A < 65536"
    then have "2 * A < 65536" by simp
    then have u: "unat (of_nat (2 * A) :: ushort) = 2 * A"
      by (rule unat_of_nat_ushort)
    have "unat (max (of_nat (2 * A) :: ushort) 5) = max (2 * A) 5"
      using u by (simp add: max_def word_le_nat_alt)
    with a show "m_incoming_queue (Register A cb url 1 st) =
          m_incoming_queue st @ [RegisterRequest_cb cb url (of_nat (2 * A))]
        \<and> unat (granted_lifetime 0 (of_nat (2 * A))) = max (2 * A) 5"
      by (simp add: Register_enqueues granted_lifetime_def MIN_LIFETIME_def)
  qed
  from granted_lifetime_max [of m lt0] floor ge_floor ge_min
    lifetime_after_RegisterRequest [of A m reply cb url lt0 st] log one
    Register_enqueues [of A cb url lt st] pub
  show ?thesis by blast
qed

theorem RegisterRequest_clamps_the_lease_witness:
  "m_incoming_queue (Register 15 1 ''u'' 1 a_thread) = [RegisterRequest_cb 1 ''u'' 30]
   \<and> unat (granted_lifetime 0 30) = 30"
  using RegisterRequest_clamps_the_lease [of 0 1 15 reg_succeeds 1 "''u''" a_thread 1]
  by (simp add: a_thread_def SlpThread_new_def)

text \<open>
  C3 (as stated) fails for a caller of \<^verbatim>\<open>Register\<close>: with an aging time of 15
  seconds, a request for a lifetime of 1 with a server interval of 0 is registered for 30
  seconds, not 5.
\<close>

theorem lease_1_through_Register_is_granted_30:
  "steps 15 [Call_Register 1 ''u'' 1, NewRequest_pass all_succeed] a_thread =
     Some (a_thread
       \<lparr>m_ss := \<lparr>timeouts = [(0, 14000, RegistrationTriggered_cb ''u'')],
                 next_timeout = 1, sockets = {}\<rparr>,
        m_url_map := [''u'' \<mapsto> \<lparr>lifetime = 30, timeout = Timeout 0\<rparr>],
        m_incoming_socket := \<lparr>sock_open = False, sock_pending = 1\<rparr>,
        m_outgoing_socket := \<lparr>sock_open = False, sock_pending = 1\<rparr>,
        m_outgoing_queue := [SimpleActionComplete_cb 1 True],
        call_log := [SLPGetRefreshInterval_call,
           SLPReg_call ''service:e133.esta://u'' 30,
           RegisterSingleTimeout_call 14000 (RegistrationTriggered_cb ''u'')]\<rparr>)"
  by (simp add: step_def Register_def AddToIncomingQueue_def NewRequest_pop_def Run_request_def
      a_thread_def RegisterRequest_eq Let_def all_succeed_def
      already_registered_def granted_lifetime_def MIN_LIFETIME_def SlpThread_new_def
      SelectServer_new_def LoopbackSocket_new_def RegisterSingleTimeout_def entry_timeout_def
      cancel_calls_def renewal_delay_def registration_ok_def reg_succeeds_def
      reg_callbackerr_def RegisterCallback_def WakeUpSocket_def SERVICE_NAME_def)


subsection \<open>Reachable states: the lifetimes\<close>

lemma unat_granted_lifetime:
  "unat (granted_lifetime m lt0) = max (max (unat lt0) 5) (unat m)"
  by (simp add: granted_lifetime_max MIN_LIFETIME_def max_def word_le_nat_alt)

lemma lifetimes_ok_new: "lifetimes_ok A (SlpThread_new ss dcb refresh)"
  by (simp add: lifetimes_ok_def SlpThread_new_def)

lemma lifetimes_ok_Discover: "lifetimes_ok A st \<Longrightarrow> lifetimes_ok A (snd (Discover st))"
  by (auto simp: lifetimes_ok_def Discover_def AddToIncomingQueue_def Let_def)

lemma lifetimes_ok_Register:
  assumes "2 * A < 65536" and "lifetimes_ok A st"
  shows "lifetimes_ok A (Register A cb url lt st)"
proof -
  have "unat (of_nat (2 * A) :: ushort) = 2 * A"
    using assms(1) by (rule unat_of_nat_ushort)
  then have "2 * A \<le> unat (if unat lt \<le> A * 2 then of_nat (2 * A) else lt :: ushort)"
    by (simp del: of_nat_mult)
  with assms(2) show ?thesis
    by (auto simp: lifetimes_ok_def Register_def AddToIncomingQueue_def Let_def simp del: of_nat_mult)
qed

lemma lifetimes_ok_DeRegister: "lifetimes_ok A st \<Longrightarrow> lifetimes_ok A (DeRegister cb url st)"
  by (auto simp: lifetimes_ok_def DeRegister_def AddToIncomingQueue_def Let_def)

lemma lifetimes_ok_Run_request:
  assumes "lifetimes_ok A st" and "m_incoming_queue st = cb # q"
  shows "lifetimes_ok A (Run_request A r cb (st\<lparr>m_incoming_queue := q\<rparr>))"
proof (cases cb)
  case DiscoveryRequest_cb
  with assms show ?thesis
    by (auto simp: lifetimes_ok_def Run_request_def DiscoveryRequest_eq)
next
  case (RegisterRequest_cb c url lt0)
  with assms have "2 * A \<le> unat lt0"
    by (auto simp: lifetimes_ok_def)
  then have "2 * A \<le> unat (granted_lifetime (refresh_r r) lt0) \<and>
      5 \<le> unat (granted_lifetime (refresh_r r) lt0)"
    by (simp add: unat_granted_lifetime le_max_iff_disj)
  with assms RegisterRequest_cb show ?thesis
    by (auto simp: lifetimes_ok_def Run_request_def RegisterRequest_eq Let_def)
next
  case (DeregisterRequest_cb c url)
  with assms show ?thesis
    by (auto simp: lifetimes_ok_def Run_request_def DeregisterRequest_eq)
qed

lemma lifetimes_ok_Run_completion:
  "lifetimes_ok A st \<Longrightarrow> Run_completion cb (st\<lparr>m_outgoing_queue := q\<rparr>) = Some st' \<Longrightarrow>
   lifetimes_ok A st'"
  by (cases cb)
     (auto simp: lifetimes_ok_def Run_completion_def DiscoveryActionComplete_def
        SimpleActionComplete_def split: option.splits)

lemma lifetimes_ok_Run_timer:
  assumes "lifetimes_ok A st"
  shows "lifetimes_ok A (Run_timer A r cb (st\<lparr>m_ss := ss\<rparr>))"
proof (cases cb)
  case DiscoveryTriggered_cb
  with assms show ?thesis
    by (auto simp: lifetimes_ok_def Run_timer_def DiscoveryTriggered_def DiscoveryRequest_eq)
next
  case (RegistrationTriggered_cb url)
  with assms show ?thesis
    by (auto simp: lifetimes_ok_def Run_timer_def RegistrationTriggered_eq split: option.splits)
qed

lemma lifetimes_ok_step:
  assumes "2 * A < 65536" and "lifetimes_ok A st" and "step A ev st = Some st'"
  shows "lifetimes_ok A st'"
proof (cases ev)
  case Call_Discover
  with assms show ?thesis by (auto simp: step_def lifetimes_ok_Discover)
next
  case (Call_Register cb url lt)
  with assms show ?thesis by (auto simp: step_def lifetimes_ok_Register)
next
  case (Call_DeRegister cb url)
  with assms show ?thesis by (auto simp: step_def lifetimes_ok_DeRegister)
next
  case (NewRequest_pass r)
  with assms show ?thesis
    by (auto simp: step_def NewRequest_pop_def lifetimes_ok_Run_request split: list.splits)
next
  case RequestComplete_pass
  with assms show ?thesis
    by (auto simp: step_def RequestComplete_pop_def split: list.splits
        dest: lifetimes_ok_Run_completion)
next
  case (Timeout_fires n r)
  with assms show ?thesis
    by (auto simp: step_def lifetimes_ok_Run_timer split: prod.splits option.splits)
qed

lemma lifetimes_ok_steps:
  assumes "2 * A < 65536"
  shows "lifetimes_ok A st \<Longrightarrow> steps A evs st = Some st' \<Longrightarrow> lifetimes_ok A st'"
proof (induction evs arbitrary: st)
  case Nil
  then show ?case by simp
next
  case (Cons ev evs)
  then show ?case
    by (auto split: option.splits dest: lifetimes_ok_step [OF assms])
qed


subsection \<open>Reachable states: the timers\<close>

lemma timeouts_RegisterSingleTimeout [simp]:
  "timeouts (snd (RegisterSingleTimeout ms cb ss)) = timeouts ss @ [(next_timeout ss, ms, cb)]"
  by (simp add: RegisterSingleTimeout_def)

lemma next_RegisterSingleTimeout [simp]:
  "next_timeout (snd (RegisterSingleTimeout ms cb ss)) = Suc (next_timeout ss)"
  by (simp add: RegisterSingleTimeout_def)

lemma set_timeouts_RemoveTimeout:
  "set (timeouts (RemoveTimeout t ss)) = {e \<in> set (timeouts ss). Timeout (fst e) \<noteq> t}"
  by (cases t) (auto simp: RemoveTimeout_def)

lemma distinct_RemoveTimeout:
  "distinct (map fst (timeouts ss)) \<Longrightarrow> distinct (map fst (timeouts (RemoveTimeout t ss)))"
  by (cases t) (auto simp: RemoveTimeout_def distinct_map_filter)

text \<open>The select server after some timer was cancelled and a new one registered.\<close>

lemma select_server_ok_after:
  assumes "distinct (map fst (timeouts ss))"
    and "\<forall>t \<in> set (timeouts ss). fst t < next_timeout ss"
  shows "distinct (map fst (timeouts (snd (RegisterSingleTimeout ms cb (RemoveTimeout t ss)))))"
    and "\<forall>e \<in> set (timeouts (snd (RegisterSingleTimeout ms cb (RemoveTimeout t ss)))).
           fst e < next_timeout (snd (RegisterSingleTimeout ms cb (RemoveTimeout t ss)))"
proof -
  have fresh: "next_timeout ss \<notin> fst ` set (timeouts (RemoveTimeout t ss))"
    using assms(2) by (auto simp: set_timeouts_RemoveTimeout)
  with distinct_RemoveTimeout [OF assms(1), of t]
  show "distinct (map fst (timeouts (snd (RegisterSingleTimeout ms cb (RemoveTimeout t ss)))))"
    by simp
  show "\<forall>e \<in> set (timeouts (snd (RegisterSingleTimeout ms cb (RemoveTimeout t ss)))).
           fst e < next_timeout (snd (RegisterSingleTimeout ms cb (RemoveTimeout t ss)))"
    using assms(2) by (auto simp: set_timeouts_RemoveTimeout less_Suc_eq)
qed

lemma timers_ok_new: "timers_ok (SlpThread_new ss dcb refresh)"
  by (simp add: timers_ok_def SlpThread_new_def SelectServer_new_def)

lemma timers_ok_frame:
  "timers_ok st \<Longrightarrow> m_ss st' = m_ss st \<Longrightarrow> m_url_map st' = m_url_map st \<Longrightarrow> timers_ok st'"
  by (simp add: timers_ok_def)

lemma timers_ok_DiscoveryRequest:
  assumes "timers_ok st"
  shows "timers_ok (DiscoveryRequest reply st)"
proof -
  from assms have d: "distinct (map fst (timeouts (m_ss st)))"
    and b: "\<forall>t \<in> set (timeouts (m_ss st)). fst t < next_timeout (m_ss st)"
    and e: "\<And>n ms url. (n, ms, RegistrationTriggered_cb url) \<in> set (timeouts (m_ss st)) \<Longrightarrow>
        \<exists>e. m_url_map st url = Some e \<and> timeout e = Timeout n"
    by (auto simp: timers_ok_def)
  from select_server_ok_after [OF d b] e show ?thesis
    by (auto simp: timers_ok_def DiscoveryRequest_eq set_timeouts_RemoveTimeout
        simp del: timeouts_RegisterSingleTimeout next_RegisterSingleTimeout)
      (auto simp: set_timeouts_RemoveTimeout)
qed


lemma timers_ok_RegisterRequest:
  assumes "timers_ok st"
  shows "timers_ok (RegisterRequest A m reply cb url lt0 st)"
proof (cases "already_registered st url (granted_lifetime m lt0)")
  case True
  with assms show ?thesis
    by (simp add: RegisterRequest_eq Let_def timers_ok_def)
next
  case False
  from assms have d: "distinct (map fst (timeouts (m_ss st)))"
    and b: "\<forall>t \<in> set (timeouts (m_ss st)). fst t < next_timeout (m_ss st)"
    and e: "\<And>n ms u. (n, ms, RegistrationTriggered_cb u) \<in> set (timeouts (m_ss st)) \<Longrightarrow>
        \<exists>e. m_url_map st u = Some e \<and> timeout e = Timeout n"
    by (auto simp: timers_ok_def)
  let ?ss = "snd (RegisterSingleTimeout (renewal_delay A (granted_lifetime m lt0))
                (RegistrationTriggered_cb url) (RemoveTimeout (entry_timeout st url) (m_ss st)))"
  let ?map = "(m_url_map st)
      (url \<mapsto> \<lparr>lifetime = granted_lifetime m lt0, timeout = Timeout (next_timeout (m_ss st))\<rparr>)"
  have "\<exists>e. ?map u = Some e \<and> timeout e = Timeout n"
    if "(n, ms, RegistrationTriggered_cb u) \<in> set (timeouts ?ss)" for n ms u
  proof (cases "u = url")
    case True
    from that have "n = next_timeout (m_ss st) \<or>
        ((n, ms, RegistrationTriggered_cb u) \<in> set (timeouts (m_ss st)) \<and>
         Timeout n \<noteq> entry_timeout st url)"
      by (auto simp: set_timeouts_RemoveTimeout)
    then show ?thesis
    proof
      assume "n = next_timeout (m_ss st)"
      with True show ?thesis by simp
    next
      assume old: "(n, ms, RegistrationTriggered_cb u) \<in> set (timeouts (m_ss st)) \<and>
         Timeout n \<noteq> entry_timeout st url"
      with e [of n ms u] True have "entry_timeout st url = Timeout n"
        by (auto simp: entry_timeout_def)
      with old show ?thesis by simp
    qed
  next
    case False
    with that have "(n, ms, RegistrationTriggered_cb u) \<in> set (timeouts (m_ss st))"
      by (auto simp: set_timeouts_RemoveTimeout)
    with e [of n ms u] False show ?thesis by simp
  qed
  with select_server_ok_after [OF d b, of "renewal_delay A (granted_lifetime m lt0)"
      "RegistrationTriggered_cb url" "entry_timeout st url"] False
  show ?thesis
    by (simp add: RegisterRequest_eq Let_def timers_ok_def
        del: timeouts_RegisterSingleTimeout next_RegisterSingleTimeout)
qed

lemma timers_ok_DeregisterRequest:
  assumes "timers_ok st"
  shows "timers_ok (DeregisterRequest reply cb url st)"
proof -
  from assms have d: "distinct (map fst (timeouts (m_ss st)))"
    and b: "\<forall>t \<in> set (timeouts (m_ss st)). fst t < next_timeout (m_ss st)"
    and e: "\<And>n ms u. (n, ms, RegistrationTriggered_cb u) \<in> set (timeouts (m_ss st)) \<Longrightarrow>
        \<exists>e. m_url_map st u = Some e \<and> timeout e = Timeout n"
    by (auto simp: timers_ok_def)
  let ?ss = "RemoveTimeout (entry_timeout st url) (m_ss st)"
  have "\<exists>e. ((m_url_map st)(url := None)) u = Some e \<and> timeout e = Timeout n"
    if "(n, ms, RegistrationTriggered_cb u) \<in> set (timeouts ?ss)" for n ms u
  proof -
    from that have old: "(n, ms, RegistrationTriggered_cb u) \<in> set (timeouts (m_ss st))"
      and neq: "Timeout n \<noteq> entry_timeout st url"
      by (auto simp: set_timeouts_RemoveTimeout)
    from e [OF old] neq have "u \<noteq> url"
      by (auto simp: entry_timeout_def)
    with e [OF old] show ?thesis by simp
  qed
  moreover have "\<forall>t \<in> set (timeouts ?ss). fst t < next_timeout ?ss"
    using b by (auto simp: set_timeouts_RemoveTimeout)
  ultimately show ?thesis
    using distinct_RemoveTimeout [OF d, of "entry_timeout st url"]
    by (simp add: DeregisterRequest_eq timers_ok_def)
qed

lemma timers_ok_Run_request:
  "timers_ok st \<Longrightarrow> timers_ok (Run_request A r cb (st\<lparr>m_incoming_queue := q\<rparr>))"
proof -
  assume "timers_ok st"
  then have "timers_ok (st\<lparr>m_incoming_queue := q\<rparr>)"
    by (simp add: timers_ok_def)
  then show ?thesis
    by (cases cb)
       (simp_all add: Run_request_def timers_ok_DiscoveryRequest timers_ok_RegisterRequest
          timers_ok_DeregisterRequest)
qed


lemma fire_timeout_Some:
  assumes "fire_timeout n ss = (Some cb, ss')"
  shows "ss' = RemoveTimeout (Timeout n) ss" and "\<exists>ms. (n, ms, cb) \<in> set (timeouts ss)"
proof -
  from assms obtain e es where f: "filter (\<lambda>e. fst e = n) (timeouts ss) = e # es"
    and cb: "cb = snd (snd e)" and ss': "ss' = RemoveTimeout (Timeout n) ss"
    by (auto simp: fire_timeout_def split: list.splits)
  from ss' show "ss' = RemoveTimeout (Timeout n) ss" .
  from f have "e \<in> set (filter (\<lambda>e. fst e = n) (timeouts ss))" by simp
  then have "e \<in> set (timeouts ss)" and "fst e = n" by auto
  with cb have "(n, fst (snd e), cb) \<in> set (timeouts ss)"
    by (metis prod.collapse)
  then show "\<exists>ms. (n, ms, cb) \<in> set (timeouts ss)" ..
qed

lemma timers_ok_RemoveTimeout:
  assumes "timers_ok st"
  shows "timers_ok (st\<lparr>m_ss := RemoveTimeout t (m_ss st)\<rparr>)"
  using assms distinct_RemoveTimeout [of "m_ss st" t]
  by (auto simp: timers_ok_def set_timeouts_RemoveTimeout)

lemma timers_ok_RegistrationTriggered:
  assumes "timers_ok st"
    and none: "\<And>n ms. (n, ms, RegistrationTriggered_cb url) \<notin> set (timeouts (m_ss st))"
  shows "timers_ok (RegistrationTriggered A reply url st)"
proof (cases "m_url_map st url")
  case None
  with assms(1) show ?thesis by (simp add: RegistrationTriggered_eq)
next
  case (Some e0)
  from assms have d: "distinct (map fst (timeouts (m_ss st)))"
    and b: "\<forall>t \<in> set (timeouts (m_ss st)). fst t < next_timeout (m_ss st)"
    and e: "\<And>n ms u. (n, ms, RegistrationTriggered_cb u) \<in> set (timeouts (m_ss st)) \<Longrightarrow>
        \<exists>e. m_url_map st u = Some e \<and> timeout e = Timeout n"
    by (auto simp: timers_ok_def)
  let ?ss = "snd (RegisterSingleTimeout (renewal_delay A (lifetime e0))
                (RegistrationTriggered_cb url) (m_ss st))"
  let ?map = "(m_url_map st)
      (url \<mapsto> \<lparr>lifetime = lifetime e0, timeout = Timeout (next_timeout (m_ss st))\<rparr>)"
  have "\<exists>e. ?map u = Some e \<and> timeout e = Timeout n"
    if "(n, ms, RegistrationTriggered_cb u) \<in> set (timeouts ?ss)" for n ms u
  proof (cases "u = url")
    case True
    with that none [of n ms] have "n = next_timeout (m_ss st)" by auto
    with True show ?thesis by simp
  next
    case False
    with that have "(n, ms, RegistrationTriggered_cb u) \<in> set (timeouts (m_ss st))" by auto
    with e [of n ms u] False show ?thesis by simp
  qed
  with select_server_ok_after [OF d b, of "renewal_delay A (lifetime e0)"
      "RegistrationTriggered_cb url" INVALID_TIMEOUT] Some
  show ?thesis
    by (simp add: RegistrationTriggered_eq timers_ok_def
        del: timeouts_RegisterSingleTimeout next_RegisterSingleTimeout)
qed

text \<open>When a timer of a registration fires, no other timer for its url is pending.\<close>

lemma fired_timer_was_the_only_one:
  assumes "timers_ok st" and "(n, ms, RegistrationTriggered_cb url) \<in> set (timeouts (m_ss st))"
  shows "(n', ms', RegistrationTriggered_cb url) \<notin> set (timeouts (RemoveTimeout (Timeout n) (m_ss st)))"
proof
  assume "(n', ms', RegistrationTriggered_cb url) \<in> set (timeouts (RemoveTimeout (Timeout n) (m_ss st)))"
  then have old: "(n', ms', RegistrationTriggered_cb url) \<in> set (timeouts (m_ss st))"
    and "n' \<noteq> n"
    by (auto simp: set_timeouts_RemoveTimeout)
  from assms(1) have e: "\<And>k ms u. (k, ms, RegistrationTriggered_cb u) \<in> set (timeouts (m_ss st)) \<Longrightarrow>
        \<exists>e. m_url_map st u = Some e \<and> timeout e = Timeout k"
    by (auto simp: timers_ok_def)
  from e [OF assms(2)] e [OF old] have "Timeout n' = Timeout n" by auto
  with \<open>n' \<noteq> n\<close> show False by simp
qed

lemma timers_ok_fire:
  assumes "timers_ok st" and "fire_timeout n (m_ss st) = (Some cb, ss')"
  shows "timers_ok (Run_timer A r cb (st\<lparr>m_ss := ss'\<rparr>))"
proof -
  from fire_timeout_Some [OF assms(2)] obtain ms
    where ss': "ss' = RemoveTimeout (Timeout n) (m_ss st)"
      and pending: "(n, ms, cb) \<in> set (timeouts (m_ss st))"
    by blast
  from timers_ok_RemoveTimeout [OF assms(1)] ss'
  have ok: "timers_ok (st\<lparr>m_ss := ss'\<rparr>)" by simp
  show ?thesis
  proof (cases cb)
    case DiscoveryTriggered_cb
    from ok have "timers_ok (st\<lparr>m_ss := ss', m_discovery_timeout := INVALID_TIMEOUT\<rparr>)"
      by (simp add: timers_ok_def)
    then show ?thesis
      using DiscoveryTriggered_cb
      by (simp add: Run_timer_def DiscoveryTriggered_def timers_ok_DiscoveryRequest)
  next
    case (RegistrationTriggered_cb url)
    with fired_timer_was_the_only_one [OF assms(1), of n ms url] pending ss'
    have "\<And>n' ms'. (n', ms', RegistrationTriggered_cb url) \<notin> set (timeouts (m_ss (st\<lparr>m_ss := ss'\<rparr>)))"
      by simp
    from timers_ok_RegistrationTriggered [OF ok this] RegistrationTriggered_cb
    show ?thesis by (simp add: Run_timer_def)
  qed
qed

lemma timers_ok_step:
  assumes "timers_ok st" and "step A ev st = Some st'"
  shows "timers_ok st'"
proof (cases ev)
  case Call_Discover
  with assms(2) have "m_ss st' = m_ss st" and "m_url_map st' = m_url_map st"
    by (auto simp: step_def Discover_def AddToIncomingQueue_def Let_def split: if_splits)
  with assms(1) show ?thesis by (rule timers_ok_frame)
next
  case (Call_Register cb url lt)
  with assms(2) have "m_ss st' = m_ss st" and "m_url_map st' = m_url_map st"
    by (auto simp: step_def Register_def AddToIncomingQueue_def Let_def)
  with assms(1) show ?thesis by (rule timers_ok_frame)
next
  case (Call_DeRegister cb url)
  with assms(2) have "m_ss st' = m_ss st" and "m_url_map st' = m_url_map st"
    by (auto simp: step_def DeRegister_def AddToIncomingQueue_def Let_def)
  with assms(1) show ?thesis by (rule timers_ok_frame)
next
  case (NewRequest_pass r)
  with assms show ?thesis
    by (auto simp: step_def NewRequest_pop_def timers_ok_Run_request split: list.splits)
next
  case RequestComplete_pass
  with assms(2) have "m_ss st' = m_ss st" and "m_url_map st' = m_url_map st"
    by (auto simp: step_def RequestComplete_pop_def Run_completion_def DiscoveryActionComplete_def
        SimpleActionComplete_def split: list.splits completion.splits option.splits)
  with assms(1) show ?thesis by (rule timers_ok_frame)
next
  case (Timeout_fires n r)
  with assms show ?thesis
    by (auto simp: step_def timers_ok_fire split: prod.splits option.splits)
qed

lemma timers_ok_steps:
  "timers_ok st \<Longrightarrow> steps A evs st = Some st' \<Longrightarrow> timers_ok st'"
proof (induction evs arbitrary: st)
  case Nil
  then show ?case by simp
next
  case (Cons ev evs)
  then show ?case
    by (auto split: option.splits dest: timers_ok_step)
qed

subsection \<open>The renewal timer\<close>

lemma renewal_delay_exact:
  assumes "A + 1 \<le> unat L"
  shows "renewal_delay A L = (int (unat L) - int A - 1) * 1000"
    and "0 \<le> renewal_delay A L" and "renewal_delay A L < int (unat L) * 1000"
proof -
  have "unat L < 2 ^ LENGTH(16)"
    by (rule unsigned_less)
  with assms have small: "A < 65536" by simp
  then have a: "unat (of_nat A :: ushort) = A"
    by (rule unat_of_nat_ushort)
  with assms have "(of_nat A :: ushort) \<le> L"
    by (simp add: word_le_nat_alt)
  then have "unat (L - of_nat A) = unat L - A"
    using a by (simp add: unat_sub)
  moreover have "uint (L - of_nat A) = int (unat (L - of_nat A))"
    by simp
  ultimately have "uint (L - of_nat A) = int (unat L) - int A"
    using assms by (simp only: of_nat_diff)
  then show eq: "renewal_delay A L = (int (unat L) - int A - 1) * 1000"
    by (simp add: renewal_delay_def)
  from assms have "int (Suc A) \<le> int (unat L)"
    by (simp only: of_nat_le_iff)
  then have "int A + 1 \<le> uint L" by simp
  then show "0 \<le> renewal_delay A L" by (simp add: eq)
  show "renewal_delay A L < int (unat L) * 1000" by (simp add: eq)
qed






lemma lifetime_above_aging:
  "2 * A \<le> unat L \<Longrightarrow> 5 \<le> unat L \<Longrightarrow> A + 1 \<le> unat L"
  by arith

lemma reachable_invariants:
  assumes "2 * A < 65536" and "steps A evs (SlpThread_new ss dcb refresh) = Some st"
  shows "lifetimes_ok A st" and "timers_ok st"
  using lifetimes_ok_steps [OF assms(1) lifetimes_ok_new assms(2)]
    timers_ok_steps [OF timers_ok_new assms(2)]
  by blast+





lemma steps_to_renewing_thread:
  "steps 15 [Call_Register 1 ''u'' 7, NewRequest_pass all_succeed]
     (SlpThread_new SelectServer_new (Some 0) 60) = Some renewing_thread"
  by (simp add: step_def Register_def AddToIncomingQueue_def NewRequest_pop_def Run_request_def
      renewing_thread_def registered_thread_eq a_thread_def RegisterRequest_eq Let_def all_succeed_def
      already_registered_def granted_lifetime_def MIN_LIFETIME_def SlpThread_new_def
      SelectServer_new_def LoopbackSocket_new_def RegisterSingleTimeout_def entry_timeout_def
      cancel_calls_def renewal_delay_def registration_ok_def reg_succeeds_def
      reg_callbackerr_def RegisterCallback_def WakeUpSocket_def SERVICE_NAME_def)


subsection \<open>The guard of Register\<close>

text \<open>
  C10. Let the aging time be below 32768. \<^verbatim>\<open>Register\<close> enqueues a request with
  exactly twice the aging time when the caller's lifetime is at most that, and with the
  caller's lifetime otherwise. In every state that the bridge reaches, each registration
  request in the incoming queue carries at least twice the aging time, and so does each
  entry of the map. For such a lifetime, after the clamps of \<^verbatim>\<open>RegisterRequest\<close> and
  for the lifetime of an entry, the arithmetic of \<^verbatim>\<open>PerformRegistration\<close> on the
  \<^verbatim>\<open>unsigned short\<close> does not wrap: the delay is
  \<open>(lifetime - SLPD_AGING_TIME_S - 1) * 1000\<close> and is not negative.
\<close>

theorem Register_raises_short_lifetimes:
  assumes "2 * A < 65536"
  shows
    "(unat lt \<le> 2 * A \<longrightarrow>
        m_incoming_queue (Register A cb url lt st) =
          m_incoming_queue st @ [RegisterRequest_cb cb url (of_nat (2 * A))]
        \<and> unat (of_nat (2 * A) :: ushort) = 2 * A)
     \<and> (2 * A < unat lt \<longrightarrow>
        m_incoming_queue (Register A cb url lt st) =
          m_incoming_queue st @ [RegisterRequest_cb cb url lt])
     \<and> (steps A evs (SlpThread_new ss dcb refresh) = Some st' \<longrightarrow>
        (\<forall>c u l. RegisterRequest_cb c u l \<in> set (m_incoming_queue st') \<longrightarrow> 2 * A \<le> unat l)
        \<and> (\<forall>u e. m_url_map st' u = Some e \<longrightarrow>
              2 * A \<le> unat (lifetime e)
              \<and> renewal_delay A (lifetime e) = (int (unat (lifetime e)) - int A - 1) * 1000
              \<and> 0 \<le> renewal_delay A (lifetime e)))
     \<and> (2 * A \<le> unat l0 \<longrightarrow>
        2 * A \<le> unat (granted_lifetime m l0)
        \<and> renewal_delay A (granted_lifetime m l0) =
            (int (unat (granted_lifetime m l0)) - int A - 1) * 1000
        \<and> 0 \<le> renewal_delay A (granted_lifetime m l0))"
proof (intro conjI impI allI)
  assume "unat lt \<le> 2 * A"
  then show "m_incoming_queue (Register A cb url lt st) =
          m_incoming_queue st @ [RegisterRequest_cb cb url (of_nat (2 * A))]"
    by (simp add: Register_enqueues del: of_nat_mult)
next
  show "unat (of_nat (2 * A) :: ushort) = 2 * A"
    using assms by (rule unat_of_nat_ushort)
next
  assume "2 * A < unat lt"
  then show "m_incoming_queue (Register A cb url lt st) =
          m_incoming_queue st @ [RegisterRequest_cb cb url lt]"
    by (simp add: Register_enqueues)
next
  fix c u l
  assume "steps A evs (SlpThread_new ss dcb refresh) = Some st'"
    and "RegisterRequest_cb c u l \<in> set (m_incoming_queue st')"
  with reachable_invariants(1) [OF assms] show "2 * A \<le> unat l"
    by (auto simp: lifetimes_ok_def)
next
  fix u e
  assume "steps A evs (SlpThread_new ss dcb refresh) = Some st'" and "m_url_map st' u = Some e"
  with reachable_invariants(1) [OF assms]
  have *: "2 * A \<le> unat (lifetime e)" "5 \<le> unat (lifetime e)"
    by (auto simp: lifetimes_ok_def)
  from * show "2 * A \<le> unat (lifetime e)" by simp
  from * have big: "A + 1 \<le> unat (lifetime e)" by (rule lifetime_above_aging)
  from renewal_delay_exact [OF big]
  show "renewal_delay A (lifetime e) = (int (unat (lifetime e)) - int A - 1) * 1000"
    and "0 \<le> renewal_delay A (lifetime e)"
    by simp_all
next
  assume l0: "2 * A \<le> unat l0"
  then show *: "2 * A \<le> unat (granted_lifetime m l0)"
    by (simp add: unat_granted_lifetime le_max_iff_disj)
  have "5 \<le> unat (granted_lifetime m l0)"
    by (simp add: unat_granted_lifetime le_max_iff_disj)
  with * have big: "A + 1 \<le> unat (granted_lifetime m l0)" by (rule lifetime_above_aging)
  from renewal_delay_exact [OF big]
  show "renewal_delay A (granted_lifetime m l0) =
            (int (unat (granted_lifetime m l0)) - int A - 1) * 1000"
    and "0 \<le> renewal_delay A (granted_lifetime m l0)"
    by simp_all
qed

theorem Register_raises_short_lifetimes_witness:
  "m_incoming_queue (Register 15 1 ''u'' 7 a_thread) = [RegisterRequest_cb 1 ''u'' 30]
   \<and> m_incoming_queue (Register 15 1 ''u'' 30 a_thread) = [RegisterRequest_cb 1 ''u'' 30]
   \<and> m_incoming_queue (Register 15 1 ''u'' 31 a_thread) = [RegisterRequest_cb 1 ''u'' 31]
   \<and> renewal_delay 15 (granted_lifetime 0 30) = 14000
   \<and> renewal_delay 15 30 = 14000"
proof -
  have small: "2 * (15 :: nat) < 65536" by simp
  have entry: "m_url_map renewing_thread ''u'' = Some \<lparr>lifetime = 30, timeout = Timeout 0\<rparr>"
    by (simp add: renewing_thread_def registered_thread_eq)
  have q: "m_incoming_queue a_thread = []"
    by (simp add: a_thread_def SlpThread_new_def)
  have g: "unat (granted_lifetime 0 30) = 30"
    by (simp add: unat_granted_lifetime)
  note t = Register_raises_short_lifetimes [OF small]
  from t [where lt = 7 and st = a_thread and cb = 1 and url = "''u''"]
    t [where lt = 30 and st = a_thread and cb = 1 and url = "''u''"]
    t [where lt = 31 and st = a_thread and cb = 1 and url = "''u''"]
    t [where ?l0.0 = 30 and m = 0]
    t [where evs = "[Call_Register 1 ''u'' 7, NewRequest_pass all_succeed]"
        and ss = SelectServer_new and dcb = "Some 0" and refresh = 60 and st' = renewing_thread,
        THEN conjunct2, THEN conjunct2, THEN conjunct1, rule_format, OF steps_to_renewing_thread,
        THEN conjunct2, rule_format, OF entry]
  show ?thesis
    by (simp add: q g)
qed

subsection \<open>The draining loops\<close>

lemma Run_completion_eq:
  "Run_completion cb st =
     (if m_discovery_callback st = None \<and> calls_discovery_callback cb
      then None else Some (st\<lparr>delivered := delivered st @ [delivery_of cb]\<rparr>))"
  by (cases cb)
     (simp_all add: Run_completion_def DiscoveryActionComplete_def SimpleActionComplete_def
        split: option.splits)

lemma run_completions_eq:
  "run_completions cbs st =
     (if m_discovery_callback st = None \<and> list_ex calls_discovery_callback cbs
      then None else Some (st\<lparr>delivered := delivered st @ map delivery_of cbs\<rparr>))"
proof (induction cbs arbitrary: st)
  case Nil
  show ?case by simp
next
  case (Cons cb cbs)
  show ?case
  proof (cases "m_discovery_callback st = None \<and> calls_discovery_callback cb")
    case True
    then show ?thesis by (simp add: Run_completion_eq)
  next
    case False
    then have "run_completions (cb # cbs) st =
        run_completions cbs (st\<lparr>delivered := delivered st @ [delivery_of cb]\<rparr>)"
      by (auto simp: Run_completion_eq)
    with False show ?thesis
      by (auto simp: Cons.IH)
  qed
qed

lemma RequestComplete_loop_runs_queue:
  "RequestComplete_loop st = run_completions (m_outgoing_queue st) (st\<lparr>m_outgoing_queue := []\<rparr>)"
proof (induction "m_outgoing_queue st" arbitrary: st)
  case Nil
  then have "m_outgoing_queue st = []" by simp
  then show ?case
    by (simp add: RequestComplete_pop_def RequestComplete_loop.simps [of st])
next
  case (Cons cb q)
  from Cons.hyps(2) have q: "m_outgoing_queue st = cb # q" by simp
  show ?case
  proof (cases "m_discovery_callback st = None \<and> calls_discovery_callback cb")
    case True
    with q show ?thesis
      by (simp add: RequestComplete_pop_def RequestComplete_loop.simps [of st] Run_completion_eq)
  next
    case False
    let ?st2 = "st\<lparr>m_outgoing_queue := q, delivered := delivered st @ [delivery_of cb]\<rparr>"
    have "q = m_outgoing_queue ?st2" by simp
    from Cons.hyps(1) [OF this]
    have ih: "RequestComplete_loop ?st2 = run_completions q (?st2\<lparr>m_outgoing_queue := []\<rparr>)"
      by simp
    have same: "?st2\<lparr>m_outgoing_queue := []\<rparr> =
        st\<lparr>m_outgoing_queue := [], delivered := delivered st @ [delivery_of cb]\<rparr>"
      by simp
    from q False have "RequestComplete_loop st = RequestComplete_loop ?st2"
      by (auto simp: RequestComplete_pop_def RequestComplete_loop.simps [of st] Run_completion_eq)
    moreover from q False
    have "run_completions (m_outgoing_queue st) (st\<lparr>m_outgoing_queue := []\<rparr>) =
        run_completions q (st\<lparr>m_outgoing_queue := [], delivered := delivered st @ [delivery_of cb]\<rparr>)"
      by (auto simp: Run_completion_eq)
    ultimately show ?thesis
      by (simp only: ih same)
  qed
qed

lemma RequestComplete_eq:
  "RequestComplete st =
     (if m_discovery_callback st = None \<and> list_ex calls_discovery_callback (m_outgoing_queue st)
      then None
      else Some (st\<lparr>m_outgoing_socket := EmptySocket (m_outgoing_socket st),
                    m_outgoing_queue := [],
                    delivered := delivered st @ map delivery_of (m_outgoing_queue st)\<rparr>))"
  by (simp add: RequestComplete_def RequestComplete_loop_runs_queue run_completions_eq)

lemma discovery_guarded_new: "discovery_guarded (SlpThread_new ss dcb refresh)"
  by (simp add: discovery_guarded_def SlpThread_new_def SelectServer_new_def)

lemma discovery_guarded_Some: "m_discovery_callback st = Some d \<Longrightarrow> discovery_guarded st"
  by (simp add: discovery_guarded_def)

lemma callback_Run_request [simp]:
  "m_discovery_callback (Run_request A r cb st) = m_discovery_callback st"
  by (cases cb)
     (simp_all add: Run_request_def DiscoveryRequest_eq RegisterRequest_eq DeregisterRequest_eq
        Let_def)

lemma callback_Run_timer [simp]:
  "m_discovery_callback (Run_timer A r cb st) = m_discovery_callback st"
  by (cases cb)
     (simp_all add: Run_timer_def DiscoveryTriggered_def DiscoveryRequest_eq
        RegistrationTriggered_eq split: option.splits)

lemma discovery_guarded_Run_request:
  assumes "discovery_guarded st" and "m_incoming_queue st = cb # q"
  shows "discovery_guarded (Run_request A r cb (st\<lparr>m_incoming_queue := q\<rparr>))"
proof (cases "m_discovery_callback st")
  case (Some d)
  then show ?thesis by (simp add: discovery_guarded_def)
next
  case None
  with assms have g: "DiscoveryRequest_cb \<notin> set (cb # q)"
    "\<not> list_ex calls_discovery_callback (m_outgoing_queue st)"
    "\<And>n ms. (n, ms, DiscoveryTriggered_cb) \<notin> set (timeouts (m_ss st))"
    by (auto simp: discovery_guarded_def)
  show ?thesis
  proof (cases cb)
    case DiscoveryRequest_cb
    with g(1) show ?thesis by simp
  next
    case (RegisterRequest_cb c url lt0)
    with None g show ?thesis
      by (auto simp: discovery_guarded_def Run_request_def RegisterRequest_eq Let_def
          set_timeouts_RemoveTimeout)
  next
    case (DeregisterRequest_cb c url)
    with None g show ?thesis
      by (auto simp: discovery_guarded_def Run_request_def DeregisterRequest_eq
          set_timeouts_RemoveTimeout)
  qed
qed

lemma discovery_guarded_fire:
  assumes "discovery_guarded st" and "fire_timeout n (m_ss st) = (Some cb, ss')"
  shows "discovery_guarded (Run_timer A r cb (st\<lparr>m_ss := ss'\<rparr>))"
proof (cases "m_discovery_callback st")
  case (Some d)
  then show ?thesis by (simp add: discovery_guarded_def)
next
  case None
  with assms(1) have g: "DiscoveryRequest_cb \<notin> set (m_incoming_queue st)"
    "\<not> list_ex calls_discovery_callback (m_outgoing_queue st)"
    "\<And>n ms. (n, ms, DiscoveryTriggered_cb) \<notin> set (timeouts (m_ss st))"
    by (auto simp: discovery_guarded_def)
  from fire_timeout_Some [OF assms(2)] obtain ms
    where ss': "ss' = RemoveTimeout (Timeout n) (m_ss st)"
      and pending: "(n, ms, cb) \<in> set (timeouts (m_ss st))"
    by blast
  show ?thesis
  proof (cases cb)
    case DiscoveryTriggered_cb
    with pending g(3) show ?thesis by simp
  next
    case (RegistrationTriggered_cb url)
    with None g ss' show ?thesis
      by (auto simp: discovery_guarded_def Run_timer_def RegistrationTriggered_eq
          set_timeouts_RemoveTimeout split: option.splits)
  qed
qed

lemma discovery_guarded_step:
  assumes "discovery_guarded st" and "step A ev st = Some st'"
  shows "discovery_guarded st'"
proof (cases ev)
  case Call_Discover
  with assms show ?thesis
    by (auto simp: step_def Discover_def AddToIncomingQueue_def Let_def discovery_guarded_def
        split: if_splits)
next
  case (Call_Register cb url lt)
  with assms show ?thesis
    by (auto simp: step_def Register_def AddToIncomingQueue_def Let_def discovery_guarded_def)
next
  case (Call_DeRegister cb url)
  with assms show ?thesis
    by (auto simp: step_def DeRegister_def AddToIncomingQueue_def Let_def discovery_guarded_def)
next
  case (NewRequest_pass r)
  with assms show ?thesis
    by (auto simp: step_def NewRequest_pop_def discovery_guarded_Run_request split: list.splits)
next
  case RequestComplete_pass
  with assms show ?thesis
    by (auto simp: step_def RequestComplete_pop_def Run_completion_eq discovery_guarded_def
        split: list.splits if_splits)
next
  case (Timeout_fires n r)
  with assms show ?thesis
    by (auto simp: step_def discovery_guarded_fire split: prod.splits option.splits)
qed

lemma discovery_guarded_steps:
  "discovery_guarded st \<Longrightarrow> steps A evs st = Some st' \<Longrightarrow> discovery_guarded st'"
proof (induction evs arbitrary: st)
  case Nil
  then show ?case by simp
next
  case (Cons ev evs)
  then show ?case
    by (auto split: option.splits dest: discovery_guarded_step)
qed

lemma RequestComplete_reachable:
  assumes "steps A evs (SlpThread_new ss dcb refresh) = Some st"
  shows "RequestComplete st =
      Some (st\<lparr>m_outgoing_socket := EmptySocket (m_outgoing_socket st),
               m_outgoing_queue := [],
               delivered := delivered st @ map delivery_of (m_outgoing_queue st)\<rparr>)"
proof -
  from discovery_guarded_steps [OF discovery_guarded_new assms]
  have "\<not> (m_discovery_callback st = None \<and> list_ex calls_discovery_callback (m_outgoing_queue st))"
    by (auto simp: discovery_guarded_def)
  then show ?thesis by (simp only: RequestComplete_eq if_False)
qed

text \<open>
  C1. Take any sequence of enqueues and passes of the draining loop on one queue (the
  incoming queue with \<^verbatim>\<open>AddToIncomingQueue\<close> and \<^verbatim>\<open>NewRequest\<close>, the outgoing queue
  with \<^verbatim>\<open>AddToOutgoingQueue\<close> and \<^verbatim>\<open>RequestComplete\<close>). The closures run so far,
  followed by the closures still queued, are the closures that were in the queue at the
  start followed by the enqueued ones, in the order of the enqueues: every closure is
  run at most once and in FIFO order, none is lost, and what has run is a prefix of what
  has been enqueued, so none runs before its enqueue. A pass returns from the loop
  exactly when it finds the queue empty. As many passes as closures are queued run all
  of them and leave the queue empty. \<^verbatim>\<open>NewRequest\<close>, when no other thread enqueues,
  returns, has run the closures of the queue in order, each once, and leaves the queue
  empty. \<^verbatim>\<open>RequestComplete\<close>, when no other thread enqueues, runs the completions of
  the queue in order, each once: it hands the result of each to the caller's callback,
  in the order of the queue, and leaves the queue empty, unless the discovery callback
  is NULL and a discovery completion is queued, where it fails. In every state that the
  bridge reaches from a new thread it does not fail.
\<close>

theorem each_queue_runs_its_closures_once_in_order:
  "(case incoming_ops ops (st, []) of
      (st', executed) \<Rightarrow> executed @ m_incoming_queue st' = m_incoming_queue st @ enqueued ops)
   \<and> (case outgoing_ops ops' (st, []) of
      (st', executed) \<Rightarrow> executed @ m_outgoing_queue st' = m_outgoing_queue st @ enqueued ops')
   \<and> prefix (snd (incoming_ops ops (st, []))) (m_incoming_queue st @ enqueued ops)
   \<and> prefix (snd (outgoing_ops ops' (st, []))) (m_outgoing_queue st @ enqueued ops')
   \<and> (NewRequest_pop st = None) = (m_incoming_queue st = [])
   \<and> (RequestComplete_pop st = None) = (m_outgoing_queue st = [])
   \<and> incoming_ops (replicate (length (m_incoming_queue st)) Drain_pass) (st, ex) =
       (st\<lparr>m_incoming_queue := []\<rparr>, ex @ m_incoming_queue st)
   \<and> outgoing_ops (replicate (length (m_outgoing_queue st)) Drain_pass) (st, ex') =
       (st\<lparr>m_outgoing_queue := []\<rparr>, ex' @ m_outgoing_queue st)
   \<and> NewRequest A E st =
       run_requests A E 0 (m_incoming_queue st)
         (st\<lparr>m_incoming_socket := EmptySocket (m_incoming_socket st), m_incoming_queue := []\<rparr>)
   \<and> m_incoming_queue (NewRequest A E st) = []
   \<and> RequestComplete st =
       run_completions (m_outgoing_queue st)
         (st\<lparr>m_outgoing_socket := EmptySocket (m_outgoing_socket st), m_outgoing_queue := []\<rparr>)
   \<and> RequestComplete st =
       (if m_discovery_callback st = None \<and> list_ex calls_discovery_callback (m_outgoing_queue st)
        then None
        else Some (st\<lparr>m_outgoing_socket := EmptySocket (m_outgoing_socket st),
                      m_outgoing_queue := [],
                      delivered := delivered st @ map delivery_of (m_outgoing_queue st)\<rparr>))
   \<and> (steps A' evs (SlpThread_new ss dcb refresh) = Some st \<longrightarrow>
        RequestComplete st =
          Some (st\<lparr>m_outgoing_socket := EmptySocket (m_outgoing_socket st),
                   m_outgoing_queue := [],
                   delivered := delivered st @ map delivery_of (m_outgoing_queue st)\<rparr>))"
proof -
  obtain st1 ex1 where i: "incoming_ops ops (st, []) = (st1, ex1)"
    by (cases "incoming_ops ops (st, [])")
  obtain st2 ex2 where o: "outgoing_ops ops' (st, []) = (st2, ex2)"
    by (cases "outgoing_ops ops' (st, [])")
  have i_acc: "ex1 @ m_incoming_queue st1 = m_incoming_queue st @ enqueued ops"
    using incoming_ops_accounts [OF i] by simp
  have o_acc: "ex2 @ m_outgoing_queue st2 = m_outgoing_queue st @ enqueued ops'"
    using outgoing_ops_accounts [OF o] by simp
  have i_pre: "prefix ex1 (m_incoming_queue st @ enqueued ops)"
    using i_acc by (metis prefixI)
  have o_pre: "prefix ex2 (m_outgoing_queue st @ enqueued ops')"
    using o_acc by (metis prefixI)
  have pop_i: "(NewRequest_pop st = None) = (m_incoming_queue st = [])"
    by (simp add: NewRequest_pop_def split: list.splits)
  have pop_o: "(RequestComplete_pop st = None) = (m_outgoing_queue st = [])"
    by (simp add: RequestComplete_pop_def split: list.splits)
  have loop: "NewRequest A E st =
       run_requests A E 0 (m_incoming_queue st)
         (st\<lparr>m_incoming_socket := EmptySocket (m_incoming_socket st), m_incoming_queue := []\<rparr>)"
    by (simp add: NewRequest_def NewRequest_loop_runs_queue)
  have empty: "m_incoming_queue (NewRequest A E st) = []"
    by (simp add: loop incoming_run_requests)
  have first: "(case incoming_ops ops (st, []) of
      (st', executed) \<Rightarrow> executed @ m_incoming_queue st' = m_incoming_queue st @ enqueued ops)
   \<and> (case outgoing_ops ops' (st, []) of
      (st', executed) \<Rightarrow> executed @ m_outgoing_queue st' = m_outgoing_queue st @ enqueued ops')
   \<and> prefix (snd (incoming_ops ops (st, []))) (m_incoming_queue st @ enqueued ops)
   \<and> prefix (snd (outgoing_ops ops' (st, []))) (m_outgoing_queue st @ enqueued ops')
   \<and> (NewRequest_pop st = None) = (m_incoming_queue st = [])
   \<and> (RequestComplete_pop st = None) = (m_outgoing_queue st = [])
   \<and> incoming_ops (replicate (length (m_incoming_queue st)) Drain_pass) (st, ex) =
       (st\<lparr>m_incoming_queue := []\<rparr>, ex @ m_incoming_queue st)
   \<and> outgoing_ops (replicate (length (m_outgoing_queue st)) Drain_pass) (st, ex') =
       (st\<lparr>m_outgoing_queue := []\<rparr>, ex' @ m_outgoing_queue st)
   \<and> NewRequest A E st =
       run_requests A E 0 (m_incoming_queue st)
         (st\<lparr>m_incoming_socket := EmptySocket (m_incoming_socket st), m_incoming_queue := []\<rparr>)
   \<and> m_incoming_queue (NewRequest A E st) = []"
    using i o i_acc o_acc i_pre o_pre pop_i pop_o loop empty
      drain_incoming_to_the_end [of st ex] drain_outgoing_to_the_end [of st ex']
    by simp
  have runs: "RequestComplete st =
       run_completions (m_outgoing_queue st)
         (st\<lparr>m_outgoing_socket := EmptySocket (m_outgoing_socket st), m_outgoing_queue := []\<rparr>)"
    by (simp add: RequestComplete_def RequestComplete_loop_runs_queue)
  have reach: "steps A' evs (SlpThread_new ss dcb refresh) = Some st \<longrightarrow>
        RequestComplete st =
          Some (st\<lparr>m_outgoing_socket := EmptySocket (m_outgoing_socket st),
                   m_outgoing_queue := [],
                   delivered := delivered st @ map delivery_of (m_outgoing_queue st)\<rparr>)"
    by (rule impI) (rule RequestComplete_reachable)
  from first runs RequestComplete_eq [of st] reach show ?thesis
    by (elim conjE, intro conjI) assumption+
qed

theorem each_queue_runs_its_closures_once_in_order_witness:
  "RequestComplete renewing_thread =
     Some (renewing_thread
       \<lparr>m_outgoing_socket := \<lparr>sock_open = False, sock_pending = 0\<rparr>,
        m_outgoing_queue := [],
        delivered := [RegistrationResult 1 True]\<rparr>)"
proof -
  have vals: "m_outgoing_queue renewing_thread = [SimpleActionComplete_cb 1 True]"
    "delivered renewing_thread = []"
    "EmptySocket (m_outgoing_socket renewing_thread) = \<lparr>sock_open = False, sock_pending = 0\<rparr>"
    by (simp_all add: renewing_thread_def registered_thread_eq a_thread_def SlpThread_new_def
        EmptySocket_def)
  from each_queue_runs_its_closures_once_in_order
      [where st = renewing_thread and A' = 15 and ss = SelectServer_new and dcb = "Some 0"
        and refresh = 60 and evs = "[Call_Register 1 ''u'' 7, NewRequest_pass all_succeed]"
        and ops = "[]" and ops' = "[]" and ex = "[]" and ex' = "[]" and A = 15
        and E = "\<lambda>k. all_succeed"]
  have "steps 15 [Call_Register 1 ''u'' 7, NewRequest_pass all_succeed]
          (SlpThread_new SelectServer_new (Some 0) 60) = Some renewing_thread \<longrightarrow>
        RequestComplete renewing_thread =
          Some (renewing_thread\<lparr>m_outgoing_socket := EmptySocket (m_outgoing_socket renewing_thread),
                   m_outgoing_queue := [],
                   delivered := delivered renewing_thread @
                     map delivery_of (m_outgoing_queue renewing_thread)\<rparr>)"
    by blast
  with steps_to_renewing_thread show ?thesis
    by (simp add: vals)
qed

end
